theory Spec2Isabelle
  imports Main "HOL-Library.Word" "HOL-Library.AList"
begin

unbundle bit_operations_syntax

section \<open>Data model of \<^verbatim>\<open>memtable.go\<close>\<close>

type_synonym byte = "8 word"
type_synonym bytes = "byte list"
type_synonym uint32 = "32 word"
type_synonym uint64 = "64 word"

text \<open>
  A Go call either panics (a failed \<^verbatim>\<open>y.AssertTrue\<close>, a slice expression out of
  range, a nil dereference) or returns its results. Returned errors are ordinary values.
\<close>

datatype panic = AssertFailed | SliceBounds | NilDeref

datatype 'a exec = Panic panic | Ret 'a

datatype error =
    EOF
  | ErrUnexpectedEOF
  | errTruncate
  | errStop
  | NewFile
  | KeySizeError nat
  | SyntaxError
  | RangeError
  | OtherError string
  | Wrapf error string
  | errFile error string string

text \<open>\<^verbatim>\<open>Entry\<close>: the fields that \<^verbatim>\<open>memtable.go\<close> reads and writes.\<close>

record Entry =
  Key :: bytes
  Value :: bytes
  UserMeta :: byte
  ExpiresAt :: uint64
  meta :: byte
  offset :: uint32
  hlen :: nat

text \<open>\<^verbatim>\<open>y.ValueStruct\<close>; the fields carry the prefix \<open>vs\<close> because a record
  field is a global constant.\<close>

record ValueStruct =
  vsMeta :: byte
  vsUserMeta :: byte
  vsExpiresAt :: uint64
  vsValue :: bytes

record valuePointer =
  Fid :: uint32
  Len :: uint32
  Offset :: uint32

record DataKey =
  KeyId :: uint64
  dkData :: bytes

text \<open>
  The mapped file \<^verbatim>\<open>z.MmapFile\<close> belongs to another library. Its calls are opaque: each
  is recorded in \<open>ops\<close>, in order, next to the effect it has on the mapping \<open>Data\<close>.
\<close>

datatype fileop =
    OpMsync
  | OpMunmap
  | OpFdTruncate int
  | OpInit
  | OpTruncate int
  | OpDelete
  | OpRemove

datatype FileLoadingMode = FileIO | MemoryMap

record logFile =
  Data :: bytes
  ops :: "fileop list"
  path :: string
  fid :: uint32
  loadingMode :: FileLoadingMode
  dataKey :: "DataKey option"
  baseIV :: bytes
  writeAt :: uint32

text \<open>The \<^verbatim>\<open>header\<close> of a record on disk; \<open>hmeta\<close> is its field \<^verbatim>\<open>meta\<close>.\<close>

record header =
  klen :: uint32
  vlen :: uint32
  expiresAt :: uint64
  hmeta :: byte
  userMeta :: byte

text \<open>
  Modelled from the spec: the sorted map \<^verbatim>\<open>skl.Skiplist\<close> is an external collaborator
  with \<^verbatim>\<open>Put(key, value_struct)\<close> and \<^verbatim>\<open>ReclaimMem()\<close>. It is a key-value association
  here, together with the number of times its arena has been reclaimed.
\<close>

record Skiplist =
  items :: "(bytes \<times> ValueStruct) list"
  reclaimed :: nat

definition sklPut :: "Skiplist \<Rightarrow> bytes \<Rightarrow> ValueStruct \<Rightarrow> Skiplist" where
  "sklPut s k v = s\<lparr>items := AList.update k v (items s)\<rparr>"

definition ReclaimMem :: "Skiplist \<Rightarrow> Skiplist" where
  "ReclaimMem s = s\<lparr>reclaimed := Suc (reclaimed s)\<rparr>"

definition Delete :: "logFile \<Rightarrow> logFile" where
  "Delete lf = lf\<lparr>ops := ops lf @ [OpDelete]\<rparr>"

text \<open>\<^verbatim>\<open>memTable\<close>: \<open>sl\<close> and \<open>wal\<close> are pointers, \<open>None\<close> is nil; \<open>ref\<close> is an
  \<^verbatim>\<open>int32\<close>, read with \<open>sint\<close>.\<close>

record memTable =
  sl :: "Skiplist option"
  wal :: "logFile option"
  ref :: "32 word"
  nextTxnTs :: uint64
  buf :: "bytes option"

section \<open>Reference counting\<close>

text \<open>
  \<^verbatim>\<open>IncrRef\<close> and \<^verbatim>\<open>DecrRef\<close> change the counter with one atomic add each, and what
  \<^verbatim>\<open>DecrRef\<close> releases depends only on the value its own add returned. An interleaving
  of calls is therefore the sequence in which their atomic adds take place.
\<close>

definition IncrRef :: "memTable \<Rightarrow> memTable" where
  "IncrRef mt = mt\<lparr>ref := ref mt + 1\<rparr>"

definition DecrRef :: "memTable \<Rightarrow> memTable exec" where
  "DecrRef mt =
     (let newRef = ref mt - 1; mt1 = mt\<lparr>ref := newRef\<rparr> in
      if 0 <s newRef then Ret mt1
      else (case sl mt1 of
              None \<Rightarrow> Panic NilDeref
            | Some s \<Rightarrow>
                (case wal mt1 of
                   None \<Rightarrow> Panic NilDeref
                 | Some lf \<Rightarrow> Ret (mt1\<lparr>sl := Some (ReclaimMem s), wal := Some (Delete lf)\<rparr>))))"

datatype refcall = CallIncrRef | CallDecrRef

fun refcalls :: "refcall list \<Rightarrow> memTable \<Rightarrow> memTable exec" where
  "refcalls [] mt = Ret mt"
| "refcalls (CallIncrRef # cs) mt = refcalls cs (IncrRef mt)"
| "refcalls (CallDecrRef # cs) mt =
     (case DecrRef mt of Panic p \<Rightarrow> Panic p | Ret mt' \<Rightarrow> refcalls cs mt')"

text \<open>How often the arena has been reclaimed and the log file deleted.\<close>

definition reclaims :: "memTable \<Rightarrow> nat" where
  "reclaims mt = (case sl mt of None \<Rightarrow> 0 | Some s \<Rightarrow> reclaimed s)"

definition deletes :: "memTable \<Rightarrow> nat" where
  "deletes mt = (case wal mt of None \<Rightarrow> 0 | Some lf \<Rightarrow> count_list (ops lf) OpDelete)"

text \<open>The state after the calls \<open>cs\<close> is reached without a panic and the count is positive.\<close>

definition positiveAfter :: "memTable \<Rightarrow> refcall list \<Rightarrow> bool" where
  "positiveAfter mt cs = (case refcalls cs mt of Panic p \<Rightarrow> False | Ret mt' \<Rightarrow> 0 <s ref mt')"

text \<open>The two counts after the calls \<open>cs\<close>, when none of them panicked.\<close>

definition releasesAfter :: "refcall list \<Rightarrow> memTable \<Rightarrow> (nat \<times> nat) option" where
  "releasesAfter cs mt =
     (case refcalls cs mt of Panic p \<Rightarrow> None | Ret mt' \<Rightarrow> Some (reclaims mt', deletes mt'))"

text \<open>A log file over a mapping of 64 zero bytes, without a data key, and a memtable with
  reference count 1 that owns it.\<close>

definition emptyLog :: logFile where
  "emptyLog = \<lparr>Data = replicate 64 0, ops = [], path = ''00001.mem'', fid = 1,
     loadingMode = MemoryMap, dataKey = None, baseIV = replicate 12 0, writeAt = 20\<rparr>"

definition freshMemTable :: memTable where
  "freshMemTable = \<lparr>sl = Some \<lparr>items = [], reclaimed = 0\<rparr>, wal = Some emptyLog,
     ref = 1, nextTxnTs = 0, buf = Some []\<rparr>"

section \<open>What \<^verbatim>\<open>memtable.go\<close> uses from the rest of the package\<close>

text \<open>
  The functions below are called by \<^verbatim>\<open>memtable.go\<close> and defined in other files of the
  repository. They are parameters of the model:
  \<^item> \<open>isZero\<close>: the method \<^verbatim>\<open>(*Entry).isZero\<close>, applied to a pointer that may be nil;
    what it does with nil is decided by its body, so it may panic;
  \<^item> \<open>ParseTs\<close>: \<^verbatim>\<open>y.ParseTs\<close>, the timestamp in the last 8 bytes of a key;
  \<^item> \<open>bitTxn\<close>, \<open>bitFinTxn\<close>: the two flag bits of \<^verbatim>\<open>meta\<close>;
  \<^item> \<open>reader\<close>: \<^verbatim>\<open>safeRead.Entry\<close> on \<^verbatim>\<open>lf.NewReader(offset)\<close>: the pairs
    \<^verbatim>\<open>(e, err)\<close> that successive calls return for the bytes of the file from that offset;
    after the last of them every call returns \<^verbatim>\<open>io.EOF\<close>. Every entry is a fresh value;
  \<^item> \<open>hEncode\<close>, \<open>hDecode\<close>: \<^verbatim>\<open>header.Encode\<close> (the bytes it writes) and
    \<^verbatim>\<open>header.Decode\<close> (the header it reads and the number of bytes read);
  \<^item> \<open>XORBlockStream\<close>, \<open>XORBlockAllocate\<close>: the cipher of package \<^verbatim>\<open>y\<close>, with
    arguments source, key, IV; the first writes its result to the writer, the second
    returns it;
  \<^item> \<open>lfInit\<close>: \<^verbatim>\<open>logFile.init\<close>, which maps the file again.
\<close>

type_synonym readResult = "Entry option \<times> error option"

record deps =
  isZero :: "Entry option \<Rightarrow> bool exec"
  ParseTs :: "bytes \<Rightarrow> uint64"
  bitTxn :: byte
  bitFinTxn :: byte
  reader :: "logFile \<Rightarrow> uint32 \<Rightarrow> readResult list"
  hEncode :: "header \<Rightarrow> bytes"
  hDecode :: "bytes \<Rightarrow> (header \<times> nat) exec"
  XORBlockStream :: "bytes \<Rightarrow> bytes \<Rightarrow> bytes \<Rightarrow> error + bytes"
  XORBlockAllocate :: "bytes \<Rightarrow> bytes \<Rightarrow> bytes \<Rightarrow> error + bytes"
  lfInit :: "logFile \<Rightarrow> logFile \<times> error option"

text \<open>Modelled from the spec: the constant \<^verbatim>\<open>vlogHeaderSize\<close> is the size of the file
  header, 8 bytes of key id and 12 bytes of base IV.\<close>

definition vlogHeaderSize :: nat where
  "vlogHeaderSize = 20"

text \<open>\<^verbatim>\<open>crc32.Size\<close> of the standard library.\<close>

definition crc32Size :: nat where
  "crc32Size = 4"

section \<open>Parsing decimal numbers\<close>

text \<open>
  \<^verbatim>\<open>strconv.ParseUint(s, 10, 64)\<close> of the standard library: a non-empty string of
  decimal digits whose value is below \<open>2 ^ 64\<close>; the loop reads the characters from the
  left and stops at the first that is no digit or makes the value overflow.
\<close>

fun parseDigits :: "nat \<Rightarrow> nat \<Rightarrow> nat list \<Rightarrow> error + nat" where
  "parseDigits bound n [] = Inr n"
| "parseDigits bound n (c # cs) =
     (if c < 48 \<or> 57 < c then Inl SyntaxError
      else if bound \<le> n * 10 + (c - 48) then Inl RangeError
      else parseDigits bound (n * 10 + (c - 48)) cs)"

definition ParseUint :: "bytes \<Rightarrow> error + uint64" where
  "ParseUint s =
     (if s = [] then Inl SyntaxError
      else (case parseDigits (2 ^ 64) 0 (map unat s) of
              Inl err \<Rightarrow> Inl err
            | Inr n \<Rightarrow> Inr (of_nat n)))"

text \<open>The decimal digits of a number, as \<^verbatim>\<open>strconv.FormatUint(n, 10)\<close> writes them.\<close>

fun decimal :: "nat \<Rightarrow> bytes" where
  "decimal n = (if n < 10 then [of_nat (48 + n)] else decimal (n div 10) @ [of_nat (48 + n mod 10)])"

declare decimal.simps [simp del]

section \<open>The replay iterator\<close>

text \<open>
  The callback \<^verbatim>\<open>fn\<close> of \<^verbatim>\<open>iterate\<close> is a closure: it is a function of the state
  \<open>'s\<close> it captures, returns the new state and its error, and may panic.
\<close>

type_synonym 's logEntry = "'s \<Rightarrow> Entry \<Rightarrow> valuePointer \<Rightarrow> ('s \<times> error option) exec"

text \<open>The variables of the loop of \<^verbatim>\<open>iterate\<close>; \<open>staged\<close> holds \<^verbatim>\<open>entries\<close> and
  \<^verbatim>\<open>vptrs\<close>, which always have the same length.\<close>

record iterState =
  recordOffset :: uint32
  lastCommit :: uint64
  validEndOffset :: uint32
  staged :: "(Entry \<times> valuePointer) list"

text \<open>
  The loop \<^verbatim>\<open>for i, e := range entries\<close> of the \<^verbatim>\<open>FIN_TXN\<close> case. Its \<^verbatim>\<open>break\<close> on
  \<^verbatim>\<open>errStop\<close> leaves this loop only; any other error is returned by \<^verbatim>\<open>iterate\<close>.
\<close>

fun deliver :: "'s logEntry \<Rightarrow> 's \<Rightarrow> (Entry \<times> valuePointer) list \<Rightarrow> ('s \<times> error option) exec" where
  "deliver fn s [] = Ret (s, None)"
| "deliver fn s ((e, vp) # rest) =
     (case fn s e vp of
        Panic p \<Rightarrow> Panic p
      | Ret (s', None) \<Rightarrow> deliver fn s' rest
      | Ret (s', Some err) \<Rightarrow> if err = errStop then Ret (s', None) else Ret (s', Some err))"

text \<open>One pass through the body of the loop: either the loop goes on with new variables,
  or \<^verbatim>\<open>iterate\<close> is over (\<^verbatim>\<open>break loop\<close>, \<^verbatim>\<open>return\<close> or a panic).\<close>

datatype 's control =
    Continue iterState 's
  | Finish "('s \<times> uint32 \<times> error option) exec"

definition breakLoop :: "iterState \<Rightarrow> 's \<Rightarrow> 's control" where
  "breakLoop st s = Finish (Ret (s, validEndOffset st, None))"

definition iterEntry :: "deps \<Rightarrow> logFile \<Rightarrow> 's logEntry \<Rightarrow> Entry \<Rightarrow> iterState \<Rightarrow> 's \<Rightarrow> 's control" where
  "iterEntry d lf fn e st s =
     (let vpLen = (of_nat (hlen e + length (Key e) + length (Value e) + crc32Size) :: uint32);
          st1 = st\<lparr>recordOffset := recordOffset st + vpLen\<rparr>;
          vp = \<lparr>Fid = fid lf, Len = vpLen, Offset = offset e\<rparr>
      in if 0 < meta e AND bitTxn d then
           (let txnTs = ParseTs d (Key e);
                st2 = (if lastCommit st1 = 0 then st1\<lparr>lastCommit := txnTs\<rparr> else st1)
            in if lastCommit st2 \<noteq> txnTs then breakLoop st2 s
               else Continue (st2\<lparr>staged := staged st2 @ [(e, vp)]\<rparr>) s)
         else if 0 < meta e AND bitFinTxn d then
           (case ParseUint (Value e) of
              Inl err \<Rightarrow> breakLoop st1 s
            | Inr txnTs \<Rightarrow>
                if lastCommit st1 \<noteq> txnTs then breakLoop st1 s
                else (let st2 = st1\<lparr>lastCommit := 0, validEndOffset := recordOffset st1\<rparr>
                      in case deliver fn s (staged st2) of
                           Panic p \<Rightarrow> Finish (Panic p)
                         | Ret (s', Some err) \<Rightarrow>
                             Finish (Ret (s', 0, Some (errFile err (path lf) ''Iteration function'')))
                         | Ret (s', None) \<Rightarrow> Continue (st2\<lparr>staged := []\<rparr>) s'))
         else if lastCommit st1 \<noteq> 0 then breakLoop st1 s
         else (let st2 = st1\<lparr>validEndOffset := recordOffset st1\<rparr>
               in case fn s e vp of
                    Panic p \<Rightarrow> Finish (Panic p)
                  | Ret (s', None) \<Rightarrow> Continue st2 s'
                  | Ret (s', Some err) \<Rightarrow>
                      if err = errStop then Continue st2 s'
                      else Finish (Ret (s', 0, Some (errFile err (path lf) ''Iteration function'')))))"

text \<open>The first \<^verbatim>\<open>switch\<close> of the loop body, on the result \<^verbatim>\<open>(e, err)\<close> of
  \<^verbatim>\<open>read.Entry\<close>, followed by the rest of the body.\<close>

definition iterStep :: "deps \<Rightarrow> logFile \<Rightarrow> 's logEntry \<Rightarrow> readResult \<Rightarrow> iterState \<Rightarrow> 's \<Rightarrow> 's control" where
  "iterStep d lf fn r st s =
     (case r of (e, err) \<Rightarrow>
        if err = Some EOF then breakLoop st s
        else (case isZero d e of
                Panic p \<Rightarrow> Finish (Panic p)
              | Ret True \<Rightarrow> breakLoop st s
              | Ret False \<Rightarrow>
                  if err = Some ErrUnexpectedEOF \<or> err = Some errTruncate then breakLoop st s
                  else (case err of
                          Some x \<Rightarrow> Finish (Ret (s, 0, Some x))
                        | None \<Rightarrow>
                            (case e of
                               None \<Rightarrow> Continue st s
                             | Some en \<Rightarrow> iterEntry d lf fn en st s))))"

fun iterLoop :: "deps \<Rightarrow> logFile \<Rightarrow> 's logEntry \<Rightarrow> readResult list \<Rightarrow> iterState \<Rightarrow> 's \<Rightarrow>
    ('s \<times> uint32 \<times> error option) exec" where
  "iterLoop d lf fn [] st s = Ret (s, validEndOffset st, None)"
| "iterLoop d lf fn (r # rs) st s =
     (case iterStep d lf fn r st s of
        Finish res \<Rightarrow> res
      | Continue st' s' \<Rightarrow> iterLoop d lf fn rs st' s')"

definition iterate :: "deps \<Rightarrow> logFile \<Rightarrow> bool \<Rightarrow> uint32 \<Rightarrow> 's logEntry \<Rightarrow> 's \<Rightarrow>
    ('s \<times> uint32 \<times> error option) exec" where
  "iterate d lf readOnly offs fn s =
     (let off = (if offs = 0 then of_nat vlogHeaderSize else offs)
      in iterLoop d lf fn (reader d lf off)
           \<lparr>recordOffset = off, lastCommit = 0, validEndOffset = off, staged = []\<rparr> s)"


text \<open>
  \<^verbatim>\<open>iterate\<close> has the log file as its receiver. Its body assigns to no field of the log
  file and writes no byte of the mapping: it reads \<^verbatim>\<open>fid\<close> and \<^verbatim>\<open>path\<close> and, through the
  reader, \<^verbatim>\<open>Data\<close>. The function below returns, next to the results of \<^verbatim>\<open>iterate\<close>, the
  log file as the call leaves it.
\<close>

definition iterateFile :: "deps \<Rightarrow> logFile \<Rightarrow> bool \<Rightarrow> uint32 \<Rightarrow> 's logEntry \<Rightarrow> 's \<Rightarrow>
    (logFile \<times> 's \<times> uint32 \<times> error option) exec" where
  "iterateFile d lf readOnly offs fn s =
     (case iterate d lf readOnly offs fn s of
        Panic p \<Rightarrow> Panic p
      | Ret r \<Rightarrow> Ret (lf, r))"

section \<open>The record codec\<close>

text \<open>\<^verbatim>\<open>binary.BigEndian.PutUint32\<close>, \<^verbatim>\<open>PutUint64\<close> and \<^verbatim>\<open>Uint64\<close> of the standard
  library.\<close>

definition be32 :: "uint32 \<Rightarrow> bytes" where
  "be32 v = [ucast (drop_bit 24 v), ucast (drop_bit 16 v), ucast (drop_bit 8 v), ucast v]"

definition be64 :: "uint64 \<Rightarrow> bytes" where
  "be64 v = [ucast (drop_bit 56 v), ucast (drop_bit 48 v), ucast (drop_bit 40 v),
             ucast (drop_bit 32 v), ucast (drop_bit 24 v), ucast (drop_bit 16 v),
             ucast (drop_bit 8 v), ucast v]"

definition beUint64 :: "bytes \<Rightarrow> uint64" where
  "beUint64 bs = foldl (\<lambda>acc b. push_bit 8 acc OR ucast b) 0 bs"

text \<open>
  \<^verbatim>\<open>hash/crc32\<close> of the standard library: the table of a polynomial
  (\<^verbatim>\<open>crc32.MakeTable\<close>), the update of a running checksum by a slice of bytes, and the
  checksum of a slice (\<^verbatim>\<open>crc32.Checksum\<close>). A digest made by \<^verbatim>\<open>crc32.New\<close> starts at 0,
  \<^verbatim>\<open>Write\<close> updates it and \<^verbatim>\<open>Sum32\<close> reads it.
\<close>

definition crcShift :: "uint32 \<Rightarrow> uint32 \<Rightarrow> uint32" where
  "crcShift poly c = (if c AND 1 = 1 then drop_bit 1 c XOR poly else drop_bit 1 c)"

definition MakeTable :: "uint32 \<Rightarrow> byte \<Rightarrow> uint32" where
  "MakeTable poly i = (crcShift poly ^^ 8) (ucast i)"

definition crcStep :: "(byte \<Rightarrow> uint32) \<Rightarrow> uint32 \<Rightarrow> byte \<Rightarrow> uint32" where
  "crcStep tab crc v = tab (ucast crc XOR v) XOR drop_bit 8 crc"

definition crcUpdate :: "(byte \<Rightarrow> uint32) \<Rightarrow> uint32 \<Rightarrow> bytes \<Rightarrow> uint32" where
  "crcUpdate tab crc p = NOT (foldl (crcStep tab) (NOT crc) p)"

definition Checksum :: "bytes \<Rightarrow> (byte \<Rightarrow> uint32) \<Rightarrow> uint32" where
  "Checksum p tab = crcUpdate tab 0 p"

text \<open>Modelled from the spec: the table \<^verbatim>\<open>y.CastagnoliCrcTable\<close> is the one of the
  Castagnoli polynomial (CRC-32C), \<^verbatim>\<open>crc32.Castagnoli\<close> in the standard library.\<close>

definition CastagnoliCrcTable :: "byte \<Rightarrow> uint32" where
  "CastagnoliCrcTable = MakeTable 0x82f63b78"

text \<open>\<^verbatim>\<open>io.MultiWriter(buf, hash)\<close>: the buffer and the running checksum; a write goes to
  both.\<close>

definition mwWrite :: "bytes \<times> uint32 \<Rightarrow> bytes \<Rightarrow> bytes \<times> uint32" where
  "mwWrite w p = (fst w @ p, crcUpdate CastagnoliCrcTable (snd w) p)"

definition encryptionEnabled :: "logFile \<Rightarrow> bool" where
  "encryptionEnabled lf = (dataKey lf \<noteq> None)"

definition keyID :: "logFile \<Rightarrow> uint64" where
  "keyID lf = (case dataKey lf of None \<Rightarrow> 0 | Some dk \<Rightarrow> KeyId dk)"

text \<open>\<^verbatim>\<open>generateIV\<close>: the assertion fails when \<^verbatim>\<open>baseIV\<close> has fewer than 12 bytes.\<close>

definition generateIV :: "logFile \<Rightarrow> uint32 \<Rightarrow> bytes exec" where
  "generateIV lf offs =
     (if min 12 (length (baseIV lf)) \<noteq> 12 then Panic AssertFailed
      else Ret (take 12 (baseIV lf) @ be32 offs))"

text \<open>
  \<^verbatim>\<open>encodeEntry\<close> appends to the buffer \<open>b\<close> and returns the encoded length and the error.
  When the cipher fails the buffer holds the header; what the cipher wrote before it
  failed is not modelled.
\<close>

definition encodeEntry :: "deps \<Rightarrow> logFile \<Rightarrow> bytes \<Rightarrow> Entry \<Rightarrow> uint32 \<Rightarrow> (bytes \<times> nat \<times> error option) exec" where
  "encodeEntry d lf b e offs =
     (let h = \<lparr>klen = of_nat (length (Key e)), vlen = of_nat (length (Value e)),
                expiresAt = ExpiresAt e, hmeta = meta e, userMeta = UserMeta e\<rparr>;
          headerEnc = hEncode d h;
          w1 = mwWrite (b, 0) headerEnc;
          plen = length headerEnc + length (Key e) + length (Value e) + crc32Size
      in case dataKey lf of
           Some dk \<Rightarrow>
             (case generateIV lf offs of
                Panic p \<Rightarrow> Panic p
              | Ret iv \<Rightarrow>
                  (case XORBlockStream d (Key e @ Value e) (dkData dk) iv of
                     Inl err \<Rightarrow>
                       Ret (fst w1, 0, Some (Wrapf err ''Error while encoding entry for vlog.''))
                   | Inr enc \<Rightarrow>
                       (let w2 = mwWrite w1 enc
                        in Ret (fst w2 @ be32 (snd w2), plen, None))))
         | None \<Rightarrow>
             (let w2 = mwWrite (mwWrite w1 (Key e)) (Value e)
              in Ret (fst w2 @ be32 (snd w2), plen, None)))"

text \<open>
  \<^verbatim>\<open>writeEntry\<close>: the buffer pointer may be nil (\<^verbatim>\<open>buf.Reset()\<close> panics then);
  \<^verbatim>\<open>lf.Data[lf.writeAt:]\<close> panics when \<^verbatim>\<open>writeAt\<close> is beyond the mapping; \<^verbatim>\<open>copy\<close>
  copies as many bytes as fit, and the assertion compares their number with the encoded
  length. \<^verbatim>\<open>writeAt\<close> is a \<^verbatim>\<open>uint32\<close> and the addition wraps.
\<close>

definition writeEntry :: "deps \<Rightarrow> logFile \<Rightarrow> bytes option \<Rightarrow> Entry \<Rightarrow> (logFile \<times> bytes option \<times> error option) exec" where
  "writeEntry d lf b e =
     (case b of
        None \<Rightarrow> Panic NilDeref
      | Some old \<Rightarrow>
          (case encodeEntry d lf [] e (writeAt lf) of
             Panic p \<Rightarrow> Panic p
           | Ret (b', plen, Some err) \<Rightarrow> Ret (lf, Some b', Some err)
           | Ret (b', plen, None) \<Rightarrow>
               (let w = unat (writeAt lf)
                in if length (Data lf) < w then Panic SliceBounds
                   else (let n = min (length (Data lf) - w) (length b')
                         in if plen \<noteq> n then Panic AssertFailed
                            else Ret (lf\<lparr>Data := take w (Data lf) @ take n b' @ drop (w + n) (Data lf),
                                         writeAt := writeAt lf + of_nat plen\<rparr>,
                                      Some b', None)))))"

text \<open>\<^verbatim>\<open>decodeEntry\<close>: slice expressions panic when out of range (the capacity of a slice
  is taken to be its length); \<^verbatim>\<open>h.klen+h.vlen\<close> is a \<^verbatim>\<open>uint32\<close> sum and wraps.\<close>

definition goSlice :: "bytes \<Rightarrow> nat \<Rightarrow> nat \<Rightarrow> bytes exec" where
  "goSlice xs lo hi = (if lo \<le> hi \<and> hi \<le> length xs then Ret (drop lo (take hi xs)) else Panic SliceBounds)"

definition decryptKV :: "deps \<Rightarrow> logFile \<Rightarrow> bytes \<Rightarrow> uint32 \<Rightarrow> (error + bytes) exec" where
  "decryptKV d lf b offs =
     (case dataKey lf of
        None \<Rightarrow> Panic NilDeref
      | Some dk \<Rightarrow>
          (case generateIV lf offs of
             Panic p \<Rightarrow> Panic p
           | Ret iv \<Rightarrow> Ret (XORBlockAllocate d b (dkData dk) iv)))"

definition decodeEntry :: "deps \<Rightarrow> logFile \<Rightarrow> bytes \<Rightarrow> uint32 \<Rightarrow> (error + Entry) exec" where
  "decodeEntry d lf b offs =
     (case hDecode d b of
        Panic p \<Rightarrow> Panic p
      | Ret (h, n) \<Rightarrow>
          (case goSlice b n (length b) of
             Panic p \<Rightarrow> Panic p
           | Ret kv0 \<Rightarrow>
               (case (if encryptionEnabled lf then decryptKV d lf kv0 offs else Ret (Inr kv0)) of
                  Panic p \<Rightarrow> Panic p
                | Ret (Inl err) \<Rightarrow> Ret (Inl err)
                | Ret (Inr kv) \<Rightarrow>
                    (case goSlice kv 0 (unat (klen h)) of
                       Panic p \<Rightarrow> Panic p
                     | Ret k \<Rightarrow>
                         (case goSlice kv (unat (klen h)) (unat (klen h + vlen h)) of
                            Panic p \<Rightarrow> Panic p
                          | Ret v \<Rightarrow>
                              Ret (Inr \<lparr>Key = k, Value = v, UserMeta = userMeta h,
                                        ExpiresAt = expiresAt h, meta = hmeta h,
                                        offset = offs, hlen = 0\<rparr>))))))"

text \<open>Encode at an offset into an empty buffer, drop the CRC trailer, decode at the same
  offset.\<close>

definition encodeDecode :: "deps \<Rightarrow> logFile \<Rightarrow> Entry \<Rightarrow> uint32 \<Rightarrow> (error + Entry) exec option" where
  "encodeDecode d lf e offs =
     (case encodeEntry d lf [] e offs of
        Ret (b, n, None) \<Rightarrow> Some (decodeEntry d lf (take (length b - crc32Size) b) offs)
      | _ \<Rightarrow> None)"

text \<open>The header that \<^verbatim>\<open>encodeEntry\<close> builds from an entry.\<close>

definition headerOf :: "Entry \<Rightarrow> header" where
  "headerOf e = \<lparr>klen = of_nat (length (Key e)), vlen = of_nat (length (Value e)),
     expiresAt = ExpiresAt e, hmeta = meta e, userMeta = UserMeta e\<rparr>"

text \<open>
  What the codec needs from the missing functions: \<^verbatim>\<open>header.Decode\<close> reads back what
  \<^verbatim>\<open>header.Encode\<close> wrote, whatever follows it, and returns its length;
  \<^verbatim>\<open>XORBlockAllocate\<close> undoes \<^verbatim>\<open>XORBlockStream\<close> under the same key and IV; the cipher
  keeps the length of its input.
\<close>

definition codecInverse :: "deps \<Rightarrow> bool" where
  "codecInverse d = (\<forall>h rest. hDecode d (hEncode d h @ rest) = Ret (h, length (hEncode d h)))"

definition cipherInverse :: "deps \<Rightarrow> bool" where
  "cipherInverse d =
     (\<forall>src key iv enc. XORBlockStream d src key iv = Inr enc \<longrightarrow>
        XORBlockAllocate d enc key iv = Inr src)"

definition cipherKeepsLength :: "deps \<Rightarrow> bool" where
  "cipherKeepsLength d =
     (\<forall>src key iv enc. XORBlockStream d src key iv = Inr enc \<longrightarrow> length enc = length src)"

section \<open>The memtable\<close>

text \<open>The entry that \<^verbatim>\<open>Put\<close> builds from its arguments.\<close>

definition putEntry :: "bytes \<Rightarrow> ValueStruct \<Rightarrow> Entry" where
  "putEntry key v = \<lparr>Key = key, Value = vsValue v, UserMeta = vsUserMeta v,
     ExpiresAt = vsExpiresAt v, meta = vsMeta v, offset = 0, hlen = 0\<rparr>"

definition Put :: "deps \<Rightarrow> memTable \<Rightarrow> bytes \<Rightarrow> ValueStruct \<Rightarrow> (memTable \<times> error option) exec" where
  "Put d mt key v =
     (let entry = putEntry key v
      in case wal mt of
           None \<Rightarrow> Panic NilDeref
         | Some lf \<Rightarrow>
             (case writeEntry d lf (buf mt) entry of
                Panic p \<Rightarrow> Panic p
              | Ret (lf', b', Some err) \<Rightarrow>
                  Ret (mt\<lparr>wal := Some lf', buf := b'\<rparr>,
                       Some (Wrapf err ''cannot write entry to WAL file''))
              | Ret (lf', b', None) \<Rightarrow>
                  (case sl mt of
                     None \<Rightarrow> Panic NilDeref
                   | Some s \<Rightarrow>
                       Ret (mt\<lparr>wal := Some lf', buf := b', sl := Some (sklPut s key v)\<rparr>, None))))"

text \<open>The closure returned by \<^verbatim>\<open>replayFunction\<close> captures the memtable; logging is left
  out.\<close>

definition replayFunction :: "deps \<Rightarrow> memTable logEntry" where
  "replayFunction d mt e vp =
     (let mt1 = (if nextTxnTs mt < ParseTs d (Key e) then mt\<lparr>nextTxnTs := ParseTs d (Key e)\<rparr> else mt);
          v = \<lparr>vsMeta = meta e, vsUserMeta = UserMeta e, vsExpiresAt = ExpiresAt e,
               vsValue = Value e\<rparr>
      in case sl mt1 of
           None \<Rightarrow> Panic NilDeref
         | Some s \<Rightarrow> Ret (mt1\<lparr>sl := Some (sklPut s (Key e) v)\<rparr>, None))"

text \<open>
  Results of the operating system and of the libraries \<^verbatim>\<open>z\<close> and \<^verbatim>\<open>y\<close> that the code
  cannot influence: the errors of \<^verbatim>\<open>z.Msync\<close>, \<^verbatim>\<open>y.Munmap\<close>, \<^verbatim>\<open>Fd.Truncate\<close> and
  \<^verbatim>\<open>MmapFile.Truncate\<close>, the file names of a directory, the mapping and error that
  \<^verbatim>\<open>z.OpenMmapFile\<close> returns for a path, the data keys of the registry, and the random
  bytes.
\<close>

record sys =
  msyncErr :: "error option"
  munmapErr :: "error option"
  fdTruncateErr :: "int \<Rightarrow> error option"
  truncateErr :: "int \<Rightarrow> error option"
  ReadDir :: "string \<Rightarrow> string list \<times> error option"
  OpenMmapFile :: "string \<Rightarrow> bytes \<times> error option"
  latestDataKey :: "DataKey option \<times> error option"
  dataKeyOf :: "uint64 \<Rightarrow> DataKey option \<times> error option"
  randErr :: "error option"
  randByte :: "nat \<Rightarrow> byte"

text \<open>\<^verbatim>\<open>MmapFile.Truncate\<close> of the library \<^verbatim>\<open>z\<close>: the file and its mapping get the given
  size; a longer mapping is filled with zeros.\<close>

definition Truncate :: "sys \<Rightarrow> logFile \<Rightarrow> int \<Rightarrow> logFile \<times> error option" where
  "Truncate y lf n =
     (let lf1 = lf\<lparr>ops := ops lf @ [OpTruncate n]\<rparr>
      in case truncateErr y n of
           Some err \<Rightarrow> (lf1, Some err)
         | None \<Rightarrow>
             (lf1\<lparr>Data := take (nat n) (Data lf) @ replicate (nat n - length (Data lf)) 0\<rparr>, None))"

definition UpdateSkipList :: "deps \<Rightarrow> sys \<Rightarrow> memTable \<Rightarrow> (memTable \<times> error option) exec" where
  "UpdateSkipList d y mt =
     (case wal mt of
        None \<Rightarrow> Ret (mt, None)
      | Some lf \<Rightarrow>
          (if sl mt = None then Ret (mt, None)
           else (case iterate d lf True 0 (replayFunction d) mt of
                   Panic p \<Rightarrow> Panic p
                 | Ret (mt1, endOff, Some err) \<Rightarrow>
                     Ret (mt1, Some (Wrapf err ''while iterating wal: %s''))
                 | Ret (mt1, endOff, None) \<Rightarrow>
                     (case Truncate y lf (uint endOff) of
                        (lf', err) \<Rightarrow> Ret (mt1\<lparr>wal := Some lf'\<rparr>, err)))))"

definition munmap :: "sys \<Rightarrow> logFile \<Rightarrow> logFile \<times> error option" where
  "munmap y lf =
     (if loadingMode lf \<noteq> MemoryMap \<or> length (Data lf) = 0 then (lf, None)
      else (let lf1 = lf\<lparr>ops := ops lf @ [OpMunmap]\<rparr>
            in case munmapErr y of
                 Some err \<Rightarrow> (lf1, Some (Wrapf err ''Unable to munmap value log: %q''))
               | None \<Rightarrow> (lf1\<lparr>Data := []\<rparr>, None)))"

definition doneWriting :: "deps \<Rightarrow> sys \<Rightarrow> logFile \<Rightarrow> uint32 \<Rightarrow> logFile \<times> error option" where
  "doneWriting d y lf offs =
     (let lf1 = lf\<lparr>ops := ops lf @ [OpMsync]\<rparr>
      in case msyncErr y of
           Some err \<Rightarrow> (lf1, Some (Wrapf err ''Unable to sync value log: %q''))
         | None \<Rightarrow>
             (case munmap y lf1 of
                (lf2, Some err) \<Rightarrow> (lf2, Some (Wrapf err ''failed to munmap vlog file %s''))
              | (lf2, None) \<Rightarrow>
                  (let lf3 = lf2\<lparr>ops := ops lf2 @ [OpFdTruncate (uint offs)]\<rparr>
                   in case fdTruncateErr y (uint offs) of
                        Some err \<Rightarrow> (lf3, Some (Wrapf err ''Unable to truncate file: %q''))
                      | None \<Rightarrow>
                          (case lfInit d (lf3\<lparr>ops := ops lf3 @ [OpInit]\<rparr>) of
                             (lf4, Some err) \<Rightarrow>
                               (lf4, Some (Wrapf err ''failed to initialize file %s''))
                           | (lf4, None) \<Rightarrow> (lf4, None)))))"

text \<open>\<^verbatim>\<open>UpdateSkipList\<close> as the spec words it: the log is truncated through
  \<^verbatim>\<open>doneWriting\<close>.\<close>

definition UpdateSkipList_doneWriting :: "deps \<Rightarrow> sys \<Rightarrow> memTable \<Rightarrow> (memTable \<times> error option) exec" where
  "UpdateSkipList_doneWriting d y mt =
     (case wal mt of
        None \<Rightarrow> Ret (mt, None)
      | Some lf \<Rightarrow>
          (if sl mt = None then Ret (mt, None)
           else (case iterate d lf True 0 (replayFunction d) mt of
                   Panic p \<Rightarrow> Panic p
                 | Ret (mt1, endOff, Some err) \<Rightarrow>
                     Ret (mt1, Some (Wrapf err ''while iterating wal: %s''))
                 | Ret (mt1, endOff, None) \<Rightarrow>
                     (case doneWriting d y lf endOff of
                        (lf', err) \<Rightarrow> Ret (mt1\<lparr>wal := Some lf'\<rparr>, err)))))"


section \<open>Opening and resetting a log file\<close>

text \<open>\<^verbatim>\<open>bootstrap\<close>: the two assertions are on the 12 bytes of the base IV, which always
  holds, and on the 20 bytes copied into the mapping, which fails when the mapping is
  shorter.\<close>

definition bootstrap :: "sys \<Rightarrow> logFile \<Rightarrow> (logFile \<times> error option) exec" where
  "bootstrap y lf =
     (case latestDataKey y of
        (dk, Some err) \<Rightarrow>
          Ret (lf, Some (Wrapf err ''Error while retrieving datakey in logFile.bootstarp''))
      | (dk, None) \<Rightarrow>
          (let lf1 = lf\<lparr>dataKey := dk\<rparr>;
               b8 = be64 (keyID lf1)
           in case randErr y of
                Some err \<Rightarrow>
                  Ret (lf1, Some (Wrapf err ''Error while creating base IV, while creating logfile''))
              | None \<Rightarrow>
                  (let iv = map (randByte y) [0..<12];
                       lf2 = lf1\<lparr>baseIV := iv\<rparr>;
                       b = b8 @ iv
                   in if min (length (Data lf2)) (length b) \<noteq> vlogHeaderSize then Panic AssertFailed
                      else Ret (lf2\<lparr>Data := b @ drop (length b) (Data lf2)\<rparr>, None))))"

definition openLog :: "sys \<Rightarrow> logFile \<Rightarrow> string \<Rightarrow> (logFile \<times> error option) exec" where
  "openLog y lf pth =
     (case OpenMmapFile y pth of
        (mf, ferr) \<Rightarrow>
          (let lf1 = lf\<lparr>Data := mf\<rparr>;
               rest = (\<lambda>lf2.
                 if min vlogHeaderSize (length (Data lf2)) \<noteq> vlogHeaderSize then Panic AssertFailed
                 else (let b = take vlogHeaderSize (Data lf2)
                       in case dataKeyOf y (beUint64 (take 8 b)) of
                            (dk, Some err) \<Rightarrow> Ret (lf2, Some (Wrapf err ''While opening vlog file %d''))
                          | (dk, None) \<Rightarrow> Ret (lf2\<lparr>dataKey := dk, baseIV := drop 8 b\<rparr>, ferr)))
           in if ferr = Some NewFile then
                (case bootstrap y lf1 of
                   Panic p \<Rightarrow> Panic p
                 | Ret (lf2, Some err) \<Rightarrow> Ret (lf2\<lparr>ops := ops lf2 @ [OpRemove]\<rparr>, Some err)
                 | Ret (lf2, None) \<Rightarrow> rest lf2)
              else (case ferr of
                      Some err \<Rightarrow> Ret (lf1, Some (Wrapf err ''while opening file: %s''))
                    | None \<Rightarrow> rest lf1)))"

text \<open>Modelled from the spec: \<^verbatim>\<open>z.ZeroOut(dst, start, end)\<close> of the library \<^verbatim>\<open>z\<close> zeroes
  the bytes of \<open>dst\<close> at the positions from \<open>start\<close> up to, not including, \<open>end\<close>.\<close>

definition ZeroOut :: "bytes \<Rightarrow> nat \<Rightarrow> nat \<Rightarrow> bytes" where
  "ZeroOut dst start end = map (\<lambda>i. if start \<le> i \<and> i < end then 0 else dst ! i) [0..<length dst]"

text \<open>\<^verbatim>\<open>reset\<close> has a pointer receiver and returns at once when it is nil.\<close>

definition reset :: "logFile option \<Rightarrow> logFile option" where
  "reset l =
     (case l of
        None \<Rightarrow> None
      | Some lf \<Rightarrow>
          Some (lf\<lparr>Data := ZeroOut (Data lf) vlogHeaderSize (unat (writeAt lf)),
                   writeAt := of_nat vlogHeaderSize\<rparr>))"

section \<open>Directory recovery\<close>

text \<open>\<^verbatim>\<open>DB\<close>: the fields that \<^verbatim>\<open>memtable.go\<close> uses; \<open>dir\<close> is \<^verbatim>\<open>db.opt.Dir\<close>, and
  \<^verbatim>\<open>nextMemFid\<close> is an \<^verbatim>\<open>int\<close>, 64 bits wide and read with \<open>sint\<close>.\<close>

record DB =
  dir :: string
  imm :: "memTable list"
  nextMemFid :: "64 word"

definition memFileExt :: string where
  "memFileExt = ''.mem''"

text \<open>\<^verbatim>\<open>strconv.ParseInt(s, 10, 64)\<close> of the standard library: an optional sign and
  \<^verbatim>\<open>ParseUint\<close> on the rest, with the range of a signed 64-bit number.\<close>

definition ParseInt :: "string \<Rightarrow> error + 64 word" where
  "ParseInt s =
     (if s = [] then Inl SyntaxError
      else (let neg = (hd s = CHR ''-'');
                body = (if hd s = CHR ''+'' \<or> hd s = CHR ''-'' then tl s else s)
            in if body = [] then Inl SyntaxError
               else (case parseDigits (2 ^ 64) 0 (map of_char body) of
                       Inl err \<Rightarrow> Inl err
                     | Inr un \<Rightarrow>
                         if \<not> neg \<and> 2 ^ 63 \<le> un then Inl RangeError
                         else if neg \<and> 2 ^ 63 < un then Inl RangeError
                         else Inr (if neg then - of_nat un else of_nat un))))"

definition HasSuffix :: "string \<Rightarrow> string \<Rightarrow> bool" where
  "HasSuffix s suffix = (length suffix \<le> length s \<and> drop (length s - length suffix) s = suffix)"

text \<open>The first loop of \<^verbatim>\<open>openMemTables\<close>: the ids of the files with the extension, in
  the order of the directory, or the first name that does not parse and its error.\<close>

fun parseFids :: "string list \<Rightarrow> (error \<times> string) + 64 word list" where
  "parseFids [] = Inr []"
| "parseFids (name # names) =
     (if \<not> HasSuffix name memFileExt then parseFids names
      else (case ParseInt (take (length name - length memFileExt) name) of
              Inl err \<Rightarrow> Inl (err, name)
            | Inr fd \<Rightarrow>
                (case parseFids names of
                   Inl x \<Rightarrow> Inl x
                 | Inr fids \<Rightarrow> Inr (fd # fids))))"

text \<open>\<^verbatim>\<open>fmt.Sprintf("%05d%s", fid, memFileExt)\<close> joined to the directory; \<^verbatim>\<open>path.Join\<close>
  is taken to put a slash between its arguments.\<close>

definition digits05 :: "int \<Rightarrow> string" where
  "digits05 i =
     (let ds = map (\<lambda>b. char_of (unat b)) (decimal (nat \<bar>i\<bar>))
      in if i < 0 then CHR ''-'' # replicate (4 - length ds) CHR ''0'' @ ds
         else replicate (5 - length ds) CHR ''0'' @ ds)"

definition mtFilePath :: "DB \<Rightarrow> 64 word \<Rightarrow> string" where
  "mtFilePath db fd = dir db @ ''/'' @ digits05 (sint fd) @ memFileExt"

definition openMemTable :: "deps \<Rightarrow> sys \<Rightarrow> DB \<Rightarrow> 64 word \<Rightarrow> (memTable option \<times> error option) exec" where
  "openMemTable d y db fd =
     (let filepath = mtFilePath db fd;
          lf0 = \<lparr>Data = [], ops = [], path = filepath, fid = ucast fd, loadingMode = MemoryMap,
                 dataKey = None, baseIV = [], writeAt = of_nat vlogHeaderSize\<rparr>
      in case openLog y lf0 filepath of
           Panic p \<Rightarrow> Panic p
         | Ret (lf, lerr) \<Rightarrow>
             (case (if lerr = Some NewFile then None else lerr) of
                Some err \<Rightarrow> Ret (None, Some (Wrapf err ''While opening mem table''))
              | None \<Rightarrow>
                  (let mt = \<lparr>sl = Some \<lparr>items = [], reclaimed = 0\<rparr>, wal = Some lf, ref = 1,
                              nextTxnTs = 0, buf = None\<rparr>
                   in if lerr = Some NewFile then Ret (Some mt, None)
                      else (case UpdateSkipList d y mt of
                              Panic p \<Rightarrow> Panic p
                            | Ret (mt', err) \<Rightarrow> Ret (Some mt', err)))))"

text \<open>The second loop of \<^verbatim>\<open>openMemTables\<close>. A memtable returned with a nil error is
  never nil.\<close>

fun openAll :: "deps \<Rightarrow> sys \<Rightarrow> DB \<Rightarrow> 64 word list \<Rightarrow> (DB \<times> error option) exec" where
  "openAll d y db [] = Ret (db, None)"
| "openAll d y db (fd # fids) =
     (case openMemTable d y db fd of
        Panic p \<Rightarrow> Panic p
      | Ret (mt, Some err) \<Rightarrow> Ret (db, Some err)
      | Ret (mt, None) \<Rightarrow> openAll d y (db\<lparr>imm := imm db @ (case mt of None \<Rightarrow> [] | Some m \<Rightarrow> [m])\<rparr>) fids)"

definition openMemTables :: "deps \<Rightarrow> sys \<Rightarrow> DB \<Rightarrow> (DB \<times> error option) exec" where
  "openMemTables d y db =
     (case ReadDir y (dir db) of
        (files, Some err) \<Rightarrow> Ret (db, Some (errFile err (dir db) ''Unable to open mem dir.''))
      | (files, None) \<Rightarrow>
          (case parseFids files of
             Inl (err, name) \<Rightarrow> Ret (db, Some (errFile err name ''Unable to parse log id.''))
           | Inr unsorted \<Rightarrow>
               (let fids = sort_key sint unsorted
                in case openAll d y db fids of
                     Panic p \<Rightarrow> Panic p
                   | Ret (db1, Some err) \<Rightarrow> Ret (db1, Some err)
                   | Ret (db1, None) \<Rightarrow>
                       (let db2 = (if length fids \<noteq> 0 then db1\<lparr>nextMemFid := last fids\<rparr> else db1)
                        in Ret (db2\<lparr>nextMemFid := nextMemFid db2 + 1\<rparr>, None)))))"

definition newMemTable :: "deps \<Rightarrow> sys \<Rightarrow> DB \<Rightarrow> (DB \<times> memTable option \<times> error option) exec" where
  "newMemTable d y db =
     (case openMemTable d y db (nextMemFid db) of
        Panic p \<Rightarrow> Panic p
      | Ret (mt, err) \<Rightarrow> Ret (db\<lparr>nextMemFid := nextMemFid db + 1\<rparr>, mt, err))"

text \<open>\<open>k\<close> calls of \<^verbatim>\<open>newMemTable\<close> one after the other, with the file id that each of
  them hands to \<^verbatim>\<open>openMemTable\<close>.\<close>

fun newMemTables :: "deps \<Rightarrow> sys \<Rightarrow> nat \<Rightarrow> DB \<Rightarrow> (DB \<times> 64 word list) exec" where
  "newMemTables d y 0 db = Ret (db, [])"
| "newMemTables d y (Suc k) db =
     (case newMemTable d y db of
        Panic p \<Rightarrow> Panic p
      | Ret (db1, mt, err) \<Rightarrow>
          (case newMemTables d y k db1 of
             Panic p \<Rightarrow> Panic p
           | Ret (db2, fids) \<Rightarrow> Ret (db2, nextMemFid db # fids)))"


section \<open>Logs of complete transaction groups\<close>









text \<open>Modelled from the spec: \<^verbatim>\<open>(*Entry).isZero\<close> is missing. A zero header ends the
  replay and is no error, it marks the unused tail of the file; a read that fails with
  \<^verbatim>\<open>io.ErrUnexpectedEOF\<close> or \<^verbatim>\<open>errTruncate\<close> ends the replay as well. So \<^verbatim>\<open>isZero\<close>
  returns for every pointer: true for an entry whose header is zero (key length, value
  length, expires-at, meta and user-meta), false for any other entry and for the nil entry
  of a failed read.\<close>

definition zeroHeader :: "Entry option \<Rightarrow> bool exec" where
  "zeroHeader e =
     Ret (case e of
            None \<Rightarrow> False
          | Some x \<Rightarrow> Key x = [] \<and> Value x = [] \<and> ExpiresAt x = 0 \<and> meta x = 0 \<and> UserMeta x = 0)"








definition okRead :: "Entry \<Rightarrow> readResult" where
  "okRead e = (Some e, None)"


section \<open>A header codec and a cipher for the examples\<close>

text \<open>
  Modelled from the spec: \<^verbatim>\<open>header.Encode\<close> and \<^verbatim>\<open>header.Decode\<close> are missing; the
  header encodes, in order, key length, value length and expires-at as variable-length
  integers, then meta and user-meta as single bytes. The variable-length integers are
  those of \<^verbatim>\<open>encoding/binary\<close>: seven bits to a byte, the low ones first, the top bit set on
  every byte but the last.
\<close>

fun putUvarint :: "nat \<Rightarrow> bytes" where
  "putUvarint n = (if n < 128 then [of_nat n] else of_nat (128 + n mod 128) # putUvarint (n div 128))"

declare putUvarint.simps [simp del]

fun uvarint :: "bytes \<Rightarrow> (nat \<times> nat) option" where
  "uvarint [] = None"
| "uvarint (b # bs) =
     (if b < 128 then Some (unat b, 1)
      else (case uvarint bs of
              None \<Rightarrow> None
            | Some (v, n) \<Rightarrow> Some (unat b - 128 + 128 * v, Suc n)))"

definition varintEncode :: "header \<Rightarrow> bytes" where
  "varintEncode h =
     putUvarint (unat (klen h)) @ putUvarint (unat (vlen h)) @ putUvarint (unat (expiresAt h)) @
     [hmeta h, userMeta h]"

definition varintDecode :: "bytes \<Rightarrow> (header \<times> nat) exec" where
  "varintDecode b =
     (case uvarint b of
        None \<Rightarrow> Panic SliceBounds
      | Some (k, n1) \<Rightarrow>
          (case uvarint (drop n1 b) of
             None \<Rightarrow> Panic SliceBounds
           | Some (v, n2) \<Rightarrow>
               (case uvarint (drop (n1 + n2) b) of
                  None \<Rightarrow> Panic SliceBounds
                | Some (x, n3) \<Rightarrow>
                    (case drop (n1 + n2 + n3) b of
                       m # u # rest \<Rightarrow>
                         Ret (\<lparr>klen = of_nat k, vlen = of_nat v, expiresAt = of_nat x,
                               hmeta = m, userMeta = u\<rparr>, n1 + n2 + n3 + 2)
                     | _ \<Rightarrow> Panic SliceBounds))))"

text \<open>
  Modelled from the spec: \<^verbatim>\<open>y.XORBlockStream\<close> and \<^verbatim>\<open>y.XORBlockAllocate\<close> are missing;
  they are AES in CTR mode, which XORs the source with a key stream fixed by the key and
  the IV, and which has keys of 16, 24 or 32 bytes. The block cipher is not modelled:
  \<open>keyStream\<close> is a stand-in for the key stream it produces.
\<close>

definition keyStream :: "bytes \<Rightarrow> bytes \<Rightarrow> nat \<Rightarrow> byte" where
  "keyStream key iv i = of_nat (Suc i * (7 + sum_list (map unat (key @ iv))))"

definition aesKeySize :: "nat \<Rightarrow> bool" where
  "aesKeySize n = (n = 16 \<or> n = 24 \<or> n = 32)"

definition xorCTR :: "bytes \<Rightarrow> bytes \<Rightarrow> bytes \<Rightarrow> error + bytes" where
  "xorCTR src key iv =
     (if aesKeySize (length key) then Inr (map (\<lambda>i. src ! i XOR keyStream key iv i) [0..<length src])
      else Inl (KeySizeError (length key)))"

text \<open>Modelled from the spec: \<^verbatim>\<open>y.ParseTs\<close> is missing; the trailing 8 bytes of the key
  are a big-endian timestamp.\<close>

definition tsOfKey :: "bytes \<Rightarrow> uint64" where
  "tsOfKey key = (if length key < 8 then 0 else beUint64 (drop (length key - 8) key))"


definition depsWith :: "readResult list \<Rightarrow> deps" where
  "depsWith rs = \<lparr>isZero = zeroHeader, ParseTs = tsOfKey, bitTxn = 0x40, bitFinTxn = 0x80,
     reader = (\<lambda>lf off. rs), hEncode = varintEncode, hDecode = varintDecode,
     XORBlockStream = xorCTR, XORBlockAllocate = xorCTR, lfInit = (\<lambda>lf. (lf, None))\<rparr>"

section \<open>Notions used in the statements\<close>

text \<open>The ids of the log files of the directory, in the order of the directory.\<close>

definition dirFids :: "sys \<Rightarrow> DB \<Rightarrow> 64 word list" where
  "dirFids y db = (case parseFids (fst (ReadDir y (dir db))) of Inl x \<Rightarrow> [] | Inr fids \<Rightarrow> fids)"

text \<open>The calls on the mapped file of the memtable that a call returned.\<close>

definition walOps :: "(memTable \<times> error option) exec \<Rightarrow> fileop list option" where
  "walOps r =
     (case r of
        Panic p \<Rightarrow> None
      | Ret (mt, err) \<Rightarrow> (case wal mt of None \<Rightarrow> None | Some lf \<Rightarrow> Some (ops lf)))"

text \<open>The value that the replay callback puts into the sorted map for an entry.\<close>

definition valueOf :: "Entry \<Rightarrow> ValueStruct" where
  "valueOf e = \<lparr>vsMeta = meta e, vsUserMeta = UserMeta e, vsExpiresAt = ExpiresAt e,
     vsValue = Value e\<rparr>"

section \<open>Examples\<close>

text \<open>Records with a key of one byte and a timestamp, a value of one byte and a header of
  five bytes: 19 bytes each, one after the other from offset 20.\<close>

definition mkEntry :: "byte \<Rightarrow> uint64 \<Rightarrow> byte \<Rightarrow> byte \<Rightarrow> uint32 \<Rightarrow> Entry" where
  "mkEntry k ts v m off = \<lparr>Key = k # be64 ts, Value = [v], UserMeta = 0, ExpiresAt = 0,
     meta = m, offset = off, hlen = 5\<rparr>"

definition plainA :: Entry where "plainA = mkEntry 0x61 5 0x41 0 20"
definition plainB :: Entry where "plainB = mkEntry 0x62 5 0x42 0 39"
definition plainC :: Entry where "plainC = mkEntry 0x63 5 0x43 0 96"
definition txnX :: Entry where "txnX = mkEntry 0x78 9 0x58 0x40 39"
definition txnY :: Entry where "txnY = mkEntry 0x79 9 0x59 0x40 58"
definition fin9 :: Entry where "fin9 = mkEntry 0x21 9 0x39 0x80 77"
definition txnZ :: Entry where "txnZ = mkEntry 0x7a 12 0x5a 0x40 96"

text \<open>A committed group after a plain record, followed by a torn group.\<close>

definition tornLog :: "readResult list" where
  "tornLog = map okRead [plainA, txnX, txnY, fin9, txnZ] @ [(None, Some EOF)]"


text \<open>A callback that records the entries it is called with, and one that also returns
  \<^verbatim>\<open>errStop\<close> every time.\<close>

definition recordCalls :: "(Entry list) logEntry" where
  "recordCalls s e vp = Ret (s @ [e], None)"

definition stopCalls :: "(Entry list) logEntry" where
  "stopCalls s e vp = Ret (s @ [e], Some errStop)"

text \<open>Two orders of one \<^verbatim>\<open>IncrRef\<close> and two \<^verbatim>\<open>DecrRef\<close> calls.\<close>

definition balancedCalls :: "refcall list" where
  "balancedCalls = [CallIncrRef, CallDecrRef, CallDecrRef]"

definition resurrectingCalls :: "refcall list" where
  "resurrectingCalls = [CallDecrRef, CallIncrRef, CallDecrRef]"

text \<open>A log file with a data key of 16 bytes, one with a data key of 5 bytes, and an entry
  whose key and value have \<open>2 ^ 31\<close> bytes each.\<close>

definition encLog :: logFile where
  "encLog = emptyLog\<lparr>dataKey := Some \<lparr>KeyId = 1, dkData = replicate 16 0x2a\<rparr>\<rparr>"

definition badKeyLog :: logFile where
  "badKeyLog = emptyLog\<lparr>dataKey := Some \<lparr>KeyId = 2, dkData = replicate 5 0\<rparr>\<rparr>"

definition bigEntry :: Entry where
  "bigEntry = \<lparr>Key = replicate (2 ^ 31) 0, Value = replicate (2 ^ 31) 0, UserMeta = 0,
     ExpiresAt = 0, meta = 0, offset = 0, hlen = 0\<rparr>"

text \<open>A log file over a mapping of \<open>2 ^ 32\<close> bytes with room for one more record of 19
  bytes.\<close>

definition fullLog :: logFile where
  "fullLog = emptyLog\<lparr>Data := replicate (2 ^ 32) 0, writeAt := 4294967277\<rparr>"

text \<open>The value of \<^verbatim>\<open>plainA\<close> as \<^verbatim>\<open>Put\<close> receives it.\<close>

definition valueA :: ValueStruct where
  "valueA = \<lparr>vsMeta = 0, vsUserMeta = 0, vsExpiresAt = 0, vsValue = [0x41]\<rparr>"

text \<open>An operating system in which nothing fails: a directory with the given file names,
  every file the given mapping and error of \<^verbatim>\<open>z.OpenMmapFile\<close>, a registry without keys.
  In one every file is new, in the other every file exists and holds 64 zero bytes.\<close>

definition sysWith :: "string list \<Rightarrow> bytes \<times> error option \<Rightarrow> sys" where
  "sysWith names opened = \<lparr>msyncErr = None, munmapErr = None, fdTruncateErr = (\<lambda>n. None),
     truncateErr = (\<lambda>n. None), ReadDir = (\<lambda>d. (names, None)), OpenMmapFile = (\<lambda>p. opened),
     latestDataKey = (None, None), dataKeyOf = (\<lambda>k. (None, None)), randErr = None,
     randByte = (\<lambda>i. of_nat (Suc i))\<rparr>"

definition someFiles :: "string list" where
  "someFiles = [''00001.mem'', ''00003.mem'', ''MANIFEST'']"

definition newFileSys :: sys where
  "newFileSys = sysWith [] (replicate 64 0, Some NewFile)"

definition oldFileSys :: sys where
  "oldFileSys = sysWith someFiles (replicate 64 0, None)"

definition freshDB :: DB where
  "freshDB = \<lparr>dir = ''/data'', imm = [], nextMemFid = 0\<rparr>"

text \<open>The log file that \<^verbatim>\<open>bootstrap\<close> makes of \<open>emptyLog\<close>, and a memtable as
  \<^verbatim>\<open>openMemTable\<close> builds it, over a mapping of 128 bytes.\<close>

definition bootedLog :: logFile where
  "bootedLog = emptyLog\<lparr>Data := (be64 0 @ map (randByte newFileSys) [0..<12]) @ replicate 44 0,
     baseIV := map (randByte newFileSys) [0..<12]\<rparr>"

definition replayLog :: logFile where
  "replayLog = emptyLog\<lparr>Data := replicate 128 0\<rparr>"

definition replayTable :: memTable where
  "replayTable = \<lparr>sl = Some \<lparr>items = [], reclaimed = 0\<rparr>, wal = Some replayLog,
     ref = 1, nextTxnTs = 0, buf = None\<rparr>"

section \<open>Theorems: reference counting\<close>

lemma sint_dec: "0 <s (r::32 word) \<Longrightarrow> sint (r - 1) = sint r - 1"
proof -
  assume "0 <s r"
  then have p: "0 < sint r" by (simp add: word_sless_alt)
  have b: "sint r < 2 ^ 31" using sint_lt [of r] by simp
  have "sint (r - 1) = signed_take_bit 31 (sint r - 1)"
    by (simp add: sint_word_ariths)
  also have "\<dots> = sint r - 1"
    using p b by (intro signed_take_bit_int_eq_self) auto
  finally show ?thesis .
qed

lemma sint_inc: "0 <s (r::32 word) + 1 \<Longrightarrow> 0 <s r \<Longrightarrow> sint (r + 1) = sint r + 1"
proof -
  assume a: "0 <s r + 1" and "0 <s r"
  then have p: "0 < sint r" by (simp add: word_sless_alt)
  have b: "sint r < 2 ^ 31" using sint_lt [of r] by simp
  have e: "sint (r + 1) = signed_take_bit 31 (sint r + 1)"
    by (simp add: sint_word_ariths)
  show ?thesis
  proof (cases "sint r + 1 < 2 ^ 31")
    case True
    then show ?thesis using e p by (simp add: signed_take_bit_int_eq_self)
  next
    case False
    then have "sint r = 2 ^ 31 - 1" using b by simp
    then have "sint (r + 1) = signed_take_bit 31 (2 ^ 31 :: int)" using e by simp
    then have "sint (r + 1) < 0" by (simp add: signed_take_bit_eq_take_bit_minus)
    then show ?thesis using a by (simp add: word_sless_alt)
  qed
qed

lemma refcalls_append:
  "refcalls (xs @ ys) mt =
     (case refcalls xs mt of Panic p \<Rightarrow> Panic p | Ret mt' \<Rightarrow> refcalls ys mt')"
proof (induction xs arbitrary: mt)
  case Nil
  show ?case by simp
next
  case (Cons c xs)
  show ?case
  proof (cases c)
    case CallIncrRef
    then show ?thesis using Cons.IH by simp
  next
    case CallDecrRef
    then show ?thesis using Cons.IH by (cases "DecrRef mt") simp_all
  qed
qed

lemma DecrRef_positive:
  assumes "DecrRef mt = Ret mt'" and "0 <s ref mt'"
  shows "mt' = mt\<lparr>ref := ref mt - 1\<rparr>"
  using assms
  by (auto simp: DecrRef_def Let_def split: if_splits option.splits)

text \<open>While the count stays positive nothing is released and the count is the balance of
  the calls.\<close>

lemma stays_positive:
  assumes "\<forall>k\<le>length cs. positiveAfter mt (take k cs)"
  shows "\<exists>mt'. refcalls cs mt = Ret mt' \<and> sl mt' = sl mt \<and> wal mt' = wal mt \<and>
           sint (ref mt') =
             sint (ref mt) + int (count_list cs CallIncrRef) - int (count_list cs CallDecrRef)"
  using assms
proof (induction cs rule: rev_induct)
  case Nil
  show ?case by simp
next
  case (snoc c cs)
  have "\<forall>k\<le>length cs. positiveAfter mt (take k cs)"
  proof (intro allI impI)
    fix k assume k: "k \<le> length cs"
    then have "positiveAfter mt (take k (cs @ [c]))"
      using snoc.prems [rule_format, of k] by simp
    then show "positiveAfter mt (take k cs)" using k by simp
  qed
  from snoc.IH [OF this] obtain m where
    m: "refcalls cs mt = Ret m" "sl m = sl mt" "wal m = wal mt"
       "sint (ref m) =
          sint (ref mt) + int (count_list cs CallIncrRef) - int (count_list cs CallDecrRef)"
    by blast
  have "positiveAfter mt (take (length cs) (cs @ [c]))"
    using snoc.prems [rule_format, of "length cs"] by simp
  then have pm: "0 <s ref m" using m(1) by (simp add: positiveAfter_def)
  have full: "positiveAfter mt (cs @ [c])"
    using snoc.prems [rule_format, of "length (cs @ [c])"] by simp
  show ?case
  proof (cases c)
    case CallIncrRef
    then have r: "refcalls (cs @ [c]) mt = Ret (IncrRef m)"
      by (simp add: refcalls_append m(1))
    then have "0 <s ref m + 1" using full by (simp add: positiveAfter_def IncrRef_def)
    then have "sint (ref m + 1) = sint (ref m) + 1" using pm by (rule sint_inc)
    then show ?thesis using r m CallIncrRef by (simp add: IncrRef_def)
  next
    case CallDecrRef
    then have r: "refcalls (cs @ [c]) mt = (case DecrRef m of Panic p \<Rightarrow> Panic p | Ret x \<Rightarrow> Ret x)"
      by (simp add: refcalls_append m(1) split: exec.splits)
    from full obtain m' where m': "DecrRef m = Ret m'" "0 <s ref m'"
      using r by (auto simp: positiveAfter_def split: exec.splits)
    then have e: "m' = m\<lparr>ref := ref m - 1\<rparr>" by (rule DecrRef_positive)
    have "sint (ref m - 1) = sint (ref m) - 1" using pm by (rule sint_dec)
    then show ?thesis using r m m'(1) e CallDecrRef by simp
  qed
qed

lemma positive_prefixes:
  assumes "\<forall>k<length (cs @ [c]). positiveAfter mt (take k (cs @ [c]))"
  shows "\<forall>k\<le>length cs. positiveAfter mt (take k cs)"
proof (intro allI impI)
  fix k assume k: "k \<le> length cs"
  then have "positiveAfter mt (take k (cs @ [c]))"
    using assms [rule_format, of k] by simp
  then show "positiveAfter mt (take k cs)" using k by simp
qed

lemma released_by_last_call:
  assumes s: "sl mt \<noteq> None" and w: "wal mt \<noteq> None" and r1: "ref mt = 1"
    and ci: "count_list cs CallIncrRef = n" and cd: "count_list cs CallDecrRef = Suc n"
    and pos: "\<forall>k<length cs. positiveAfter mt (take k cs)"
  shows "\<exists>cs' mt1 mt'. cs = cs' @ [CallDecrRef] \<and>
           refcalls cs' mt = Ret mt1 \<and> ref mt1 = 1 \<and>
           reclaims mt1 = reclaims mt \<and> deletes mt1 = deletes mt \<and>
           refcalls cs mt = Ret mt' \<and> ref mt' = 0 \<and>
           reclaims mt' = Suc (reclaims mt) \<and> deletes mt' = Suc (deletes mt)"
proof -
  have "cs \<noteq> []" using cd by auto
  then obtain cs' c where cs: "cs = cs' @ [c]" by (metis rev_exhaust)
  have "\<forall>k\<le>length cs'. positiveAfter mt (take k cs')"
    using pos unfolding cs by (rule positive_prefixes)
  from stays_positive [OF this] obtain m where
    m: "refcalls cs' mt = Ret m" "sl m = sl mt" "wal m = wal mt"
       "sint (ref m) =
          sint (ref mt) + int (count_list cs' CallIncrRef) - int (count_list cs' CallDecrRef)"
    by blast
  have "positiveAfter mt (take (length cs') cs)"
    using pos [rule_format, of "length cs'"] cs by simp
  then have pm: "0 < sint (ref m)" using m(1) cs by (simp add: positiveAfter_def word_sless_alt)
  have c: "c = CallDecrRef"
  proof (cases c)
    case CallIncrRef
    then have "sint (ref m) = 1 + int (n - 1) - int (Suc n)" "0 < n"
      using m(4) ci cd cs r1 by auto
    then show ?thesis using pm by simp
  qed
  then have "sint (ref m) = 1" using m(4) ci cd cs r1 by simp
  then have rm: "ref m = 1" using word_eq_iff_signed by fastforce
  obtain s0 l0 where sw: "sl m = Some s0" "wal m = Some l0" using s w m(2,3) by auto
  have d: "DecrRef m = Ret (m\<lparr>ref := 0, sl := Some (ReclaimMem s0), wal := Some (Delete l0)\<rparr>)"
    using rm sw by (simp add: DecrRef_def Let_def word_sless_alt)
  have "refcalls cs mt = Ret (m\<lparr>ref := 0, sl := Some (ReclaimMem s0), wal := Some (Delete l0)\<rparr>)"
    using cs c m(1) d by (simp add: refcalls_append)
  moreover have "reclaims m = reclaims mt" "deletes m = deletes mt"
    using m(2,3) by (simp_all add: reclaims_def deletes_def)
  ultimately show ?thesis
    using cs c m(1) rm sw
    by (simp add: reclaims_def deletes_def ReclaimMem_def Delete_def)
qed

lemma nothing_released_before:
  assumes pos: "\<forall>k<length cs. positiveAfter mt (take k cs)" and k: "k < length cs"
  shows "releasesAfter (take k cs) mt = Some (reclaims mt, deletes mt)"
proof -
  have "\<forall>j\<le>length (take k cs). positiveAfter mt (take j (take k cs))"
  proof (intro allI impI)
    fix j assume "j \<le> length (take k cs)"
    then have j: "j \<le> k" "j < length cs" using k by simp_all
    then have "positiveAfter mt (take j cs)" using pos by blast
    then show "positiveAfter mt (take j (take k cs))" using j by (simp add: min_absorb1)
  qed
  from stays_positive [OF this] obtain m where
    "refcalls (take k cs) mt = Ret m" "sl m = sl mt" "wal m = wal mt" by blast
  then show ?thesis by (simp add: releasesAfter_def reclaims_def deletes_def)
qed

text \<open>
  Claim C7, as stated, for any interleaving: it fails. One \<^verbatim>\<open>IncrRef\<close> and two
  \<^verbatim>\<open>DecrRef\<close> calls on a memtable created with count 1, in the order
  \<^verbatim>\<open>DecrRef, IncrRef, DecrRef\<close>, bring the count to zero twice, and the arena is
  reclaimed twice and the log file deleted twice.
\<close>

theorem C7_any_interleaving_counterexample:
  "count_list resurrectingCalls CallIncrRef = 1 \<and>
   count_list resurrectingCalls CallDecrRef = 2 \<and>
   ref freshMemTable = 1 \<and>
   releasesAfter resurrectingCalls freshMemTable = Some (2, 2)"
  by (simp add: resurrectingCalls_def releasesAfter_def DecrRef_def IncrRef_def
      freshMemTable_def Let_def word_sless_alt reclaims_def deletes_def ReclaimMem_def
      Delete_def emptyLog_def)

text \<open>
  Claim C7, amended: for a memtable created with reference count 1 (skiplist and log file
  present), after \<open>n\<close> \<^verbatim>\<open>IncrRef\<close> and \<open>n + 1\<close> \<^verbatim>\<open>DecrRef\<close> calls in any order in which
  the count is positive before the last call, the arena is reclaimed and the log file
  deleted exactly once: the last call is a \<^verbatim>\<open>DecrRef\<close>, it finds the count at 1 and brings
  it to zero, and no call before it releases anything. A \<^verbatim>\<open>DecrRef\<close> that leaves the count
  positive releases nothing.
\<close>

theorem C7_released_exactly_once:
  assumes "sl mt \<noteq> None" and "wal mt \<noteq> None" and "ref mt = 1"
    and "count_list cs CallIncrRef = n" and "count_list cs CallDecrRef = Suc n"
    and "\<forall>k<length cs. positiveAfter mt (take k cs)"
  shows "(\<exists>cs' mt1 mt'. cs = cs' @ [CallDecrRef] \<and>
            refcalls cs' mt = Ret mt1 \<and> ref mt1 = 1 \<and>
            refcalls cs mt = Ret mt' \<and> ref mt' = 0) \<and>
         releasesAfter cs mt = Some (Suc (reclaims mt), Suc (deletes mt)) \<and>
         (\<forall>k<length cs. releasesAfter (take k cs) mt = Some (reclaims mt, deletes mt)) \<and>
         (\<forall>m m'. DecrRef m = Ret m' \<and> 0 <s ref m' \<longrightarrow>
            reclaims m' = reclaims m \<and> deletes m' = deletes m)"
proof -
  from released_by_last_call [OF assms] obtain cs' mt1 mt' where
    r: "cs = cs' @ [CallDecrRef]" "refcalls cs' mt = Ret mt1" "ref mt1 = 1"
       "refcalls cs mt = Ret mt'" "ref mt' = 0"
       "reclaims mt' = Suc (reclaims mt)" "deletes mt' = Suc (deletes mt)"
    by blast
  have a: "\<exists>cs' mt1 mt'. cs = cs' @ [CallDecrRef] \<and>
            refcalls cs' mt = Ret mt1 \<and> ref mt1 = 1 \<and>
            refcalls cs mt = Ret mt' \<and> ref mt' = 0"
    using r by blast
  have b: "releasesAfter cs mt = Some (Suc (reclaims mt), Suc (deletes mt))"
    using r(4,6,7) by (simp add: releasesAfter_def)
  have c: "\<forall>k<length cs. releasesAfter (take k cs) mt = Some (reclaims mt, deletes mt)"
    using nothing_released_before [OF assms(6)] by blast
  have d: "\<forall>m m'. DecrRef m = Ret m' \<and> 0 <s ref m' \<longrightarrow>
            reclaims m' = reclaims m \<and> deletes m' = deletes m"
  proof (intro allI impI)
    fix m m' assume "DecrRef m = Ret m' \<and> 0 <s ref m'"
    then have "m' = m\<lparr>ref := ref m - 1\<rparr>" by (simp add: DecrRef_positive)
    then show "reclaims m' = reclaims m \<and> deletes m' = deletes m"
      by (simp add: reclaims_def deletes_def)
  qed
  show ?thesis using a b c d by blast
qed

theorem C7_released_exactly_once_witness:
  "count_list balancedCalls CallIncrRef = 1 \<and>
   count_list balancedCalls CallDecrRef = 2 \<and>
   ref freshMemTable = 1 \<and>
   releasesAfter balancedCalls freshMemTable = Some (1, 1) \<and>
   releasesAfter (take 2 balancedCalls) freshMemTable = Some (0, 0)"
proof -
  have h1: "sl freshMemTable \<noteq> None" by (simp add: freshMemTable_def)
  have h2: "wal freshMemTable \<noteq> None" by (simp add: freshMemTable_def)
  have h3: "ref freshMemTable = 1" by (simp add: freshMemTable_def)
  have h4: "count_list balancedCalls CallIncrRef = 1" by (simp add: balancedCalls_def)
  have h5: "count_list balancedCalls CallDecrRef = Suc 1" by (simp add: balancedCalls_def)
  have l: "length balancedCalls = Suc (Suc (Suc 0))" by (simp add: balancedCalls_def)
  have h6: "\<forall>k<length balancedCalls. positiveAfter freshMemTable (take k balancedCalls)"
    unfolding l All_less_Suc
    by (simp add: balancedCalls_def positiveAfter_def DecrRef_def IncrRef_def
        freshMemTable_def Let_def word_sless_alt)
  have z: "reclaims freshMemTable = 0" "deletes freshMemTable = 0"
    by (simp_all add: reclaims_def deletes_def freshMemTable_def emptyLog_def)
  have two: "(2::nat) < length balancedCalls" by (simp add: balancedCalls_def)
  from C7_released_exactly_once [OF h1 h2 h3 h4 h5 h6]
  have "releasesAfter balancedCalls freshMemTable = Some (1, 1)"
    and "releasesAfter (take 2 balancedCalls) freshMemTable = Some (0, 0)"
    using z two by auto
  then show ?thesis using h3 h4 h5 by simp
qed

section \<open>Theorems: decimal numbers\<close>








section \<open>Theorems: the replay iterator\<close>












text \<open>
  \<^verbatim>\<open>iterate\<close> evaluates \<^verbatim>\<open>e.isZero()\<close> before it looks at \<^verbatim>\<open>io.ErrUnexpectedEOF\<close> and
  \<^verbatim>\<open>errTruncate\<close> and before it compares \<^verbatim>\<open>e\<close> with nil. With an \<^verbatim>\<open>isZero\<close> that panics on
  the nil entry of a failed read, the replay of a log that ends in a record written in part
  panics.
\<close>

lemma isZero_panic_on_failed_read:
  assumes "isZero d None = Panic p" and "err \<noteq> Some EOF"
  shows "iterLoop d lf fn ((None, err) # rs) st s = Panic p"
  using assms by (simp add: iterStep_def)




lemma tsOfKey_examples:
  "tsOfKey (Key plainA) = 5" "tsOfKey (Key txnX) = 9" "tsOfKey (Key txnY) = 9"
  "tsOfKey (Key txnZ) = 12"
  by (simp_all add: plainA_def txnX_def txnY_def txnZ_def mkEntry_def tsOfKey_def be64_def
      beUint64_def)

lemma example_fields:
  "meta plainA = 0" "meta plainB = 0" "meta plainC = 0" "meta txnX = 0x40" "meta txnY = 0x40"
  "meta fin9 = 0x80" "meta txnZ = 0x40" "Value fin9 = [0x39]"
  "hlen plainA = 5" "hlen plainB = 5" "hlen plainC = 5" "hlen txnX = 5"
  "hlen txnY = 5" "hlen fin9 = 5" "hlen txnZ = 5"
  "length (Key plainA) = 9" "length (Key plainB) = 9" "length (Key plainC) = 9"
  "length (Key txnX) = 9" "length (Key txnY) = 9" "length (Key fin9) = 9"
  "length (Key txnZ) = 9"
  "length (Value plainA) = 1" "length (Value plainB) = 1" "length (Value plainC) = 1"
  "length (Value txnX) = 1" "length (Value txnY) = 1" "length (Value txnZ) = 1"
  "Key plainA \<noteq> []" "Key plainB \<noteq> []" "Key plainC \<noteq> []" "Key txnX \<noteq> []" "Key txnY \<noteq> []"
  "Key fin9 \<noteq> []" "Key txnZ \<noteq> []"
  by (simp_all add: plainA_def plainB_def plainC_def txnX_def txnY_def txnZ_def fin9_def
      mkEntry_def be64_def)

lemma ParseUint_9: "ParseUint [0x39] = Inr 9"
  by (simp add: ParseUint_def)


text \<open>
  Claim C2, at two inputs. A callback that returns \<^verbatim>\<open>errStop\<close> does not end the
  iteration: outside a group the \<^verbatim>\<open>break\<close> leaves the \<^verbatim>\<open>switch\<close> and the next record
  is read and delivered; in a group it leaves the loop over the staged entries, the rest of
  the group is skipped and the records after the group are delivered.
\<close>

theorem C2_errStop_goes_on:
  "iterate (depsWith (map okRead [plainA, plainB])) emptyLog True 0 stopCalls [] =
     Ret ([plainA, plainB], 58, None) \<and>
   iterate (depsWith (map okRead [txnX, txnY, fin9, plainC])) emptyLog True 0 stopCalls [] =
     Ret ([txnX, plainC], 96, None)"
  by (simp add: iterate_def depsWith_def okRead_def iterStep_def iterEntry_def zeroHeader_def
      stopCalls_def Let_def vlogHeaderSize_def example_fields tsOfKey_examples ParseUint_9
      crc32Size_def breakLoop_def)

section \<open>Theorems: the record codec\<close>

lemma crcUpdate_append: "crcUpdate tab (crcUpdate tab c p) q = crcUpdate tab c (p @ q)"
  by (simp add: crcUpdate_def)

lemma mwWrite_two:
  "mwWrite (mwWrite (b, 0) p) q = (b @ p @ q, Checksum (p @ q) CastagnoliCrcTable)"
  by (simp add: mwWrite_def Checksum_def crcUpdate_append)

lemma mwWrite_three:
  "mwWrite (mwWrite (mwWrite (b, 0) p) q) r =
     (b @ p @ q @ r, Checksum (p @ q @ r) CastagnoliCrcTable)"
  by (simp add: mwWrite_def Checksum_def crcUpdate_append)

lemma length_be32: "length (be32 v) = 4"
  by (simp add: be32_def)

text \<open>What a successful call of \<^verbatim>\<open>encodeEntry\<close> has appended to the buffer.\<close>

lemma encodeEntry_success:
  assumes "encodeEntry d lf b e offs = Ret (b', n, None)"
  shows "\<exists>kv. b' = b @ hEncode d (headerOf e) @ kv @
                  be32 (Checksum (hEncode d (headerOf e) @ kv) CastagnoliCrcTable) \<and>
              n = length (hEncode d (headerOf e)) + length (Key e) + length (Value e) + crc32Size \<and>
              (case dataKey lf of
                 None \<Rightarrow> kv = Key e @ Value e
               | Some dk \<Rightarrow>
                   generateIV lf offs = Ret (take 12 (baseIV lf) @ be32 offs) \<and>
                   XORBlockStream d (Key e @ Value e) (dkData dk) (take 12 (baseIV lf) @ be32 offs) = Inr kv)"
proof (cases "dataKey lf")
  case None
  then show ?thesis
    using assms
    by (auto simp: encodeEntry_def Let_def headerOf_def mwWrite_three)
next
  case (Some dk)
  from assms Some obtain iv where iv: "generateIV lf offs = Ret iv"
    by (cases "generateIV lf offs") (auto simp: encodeEntry_def Let_def)
  then have iv': "iv = take 12 (baseIV lf) @ be32 offs"
    by (auto simp: generateIV_def split: if_splits)
  from assms Some iv obtain enc where
    enc: "XORBlockStream d (Key e @ Value e) (dkData dk) iv = Inr enc"
    by (cases "XORBlockStream d (Key e @ Value e) (dkData dk) iv")
       (auto simp: encodeEntry_def Let_def)
  show ?thesis
    using assms Some iv enc iv'
    by (auto simp: encodeEntry_def Let_def headerOf_def mwWrite_two)
qed

text \<open>
  Claim C4. The four bytes that a successful \<^verbatim>\<open>encodeEntry\<close> appends last are the
  big-endian CRC-32C checksum of exactly the bytes it appended before them, the header and
  the key and value as they stand in the buffer: the key and value themselves without
  encryption, the output of the cipher with it. The checksum bytes are not part of the
  input of the checksum.
\<close>

theorem C4_crc_trailer:
  assumes "encodeEntry d lf b e offs = Ret (b', n, None)"
  shows "\<exists>kv. b' = b @ (hEncode d (headerOf e) @ kv) @
                  be32 (Checksum (hEncode d (headerOf e) @ kv) CastagnoliCrcTable) \<and>
              (\<not> encryptionEnabled lf \<longrightarrow> kv = Key e @ Value e) \<and>
              (\<forall>dk. dataKey lf = Some dk \<longrightarrow>
                 XORBlockStream d (Key e @ Value e) (dkData dk) (take 12 (baseIV lf) @ be32 offs) = Inr kv)"
  using encodeEntry_success [OF assms]
  by (auto simp: encryptionEnabled_def split: option.splits)

lemma unat_len32: "n < 2 ^ 32 \<Longrightarrow> unat (of_nat n :: uint32) = n"
  by (rule of_nat_inverse [OF refl]) simp

lemma goSlice_all: "goSlice (xs @ ys) (length xs) (length (xs @ ys)) = Ret ys"
  by (simp add: goSlice_def)

lemma goSlice_prefix: "goSlice (xs @ ys) 0 (length xs) = Ret xs"
  by (simp add: goSlice_def)

lemma goSlice_suffix: "goSlice (xs @ ys) (length xs) (length xs + length ys) = Ret ys"
  by (simp add: goSlice_def)

lemma decode_encoded:
  assumes c: "codecInverse d" and x: "cipherInverse d" and enc: "encryptionEnabled lf"
    and k: "length (Key e) < 2 ^ 32" and v: "length (Value e) < 2 ^ 32"
    and ok: "encodeEntry d lf [] e offs = Ret (b, n, None)"
  shows "decodeEntry d lf (take (length b - crc32Size) b) offs =
           (case goSlice (Key e @ Value e) (length (Key e))
                   (unat (of_nat (length (Key e)) + of_nat (length (Value e)) :: uint32)) of
              Panic p \<Rightarrow> Panic p
            | Ret val \<Rightarrow> Ret (Inr (e\<lparr>Value := val, offset := offs, hlen := 0\<rparr>)))"
proof -
  obtain dk where dk: "dataKey lf = Some dk" using enc by (auto simp: encryptionEnabled_def)
  let ?iv = "take 12 (baseIV lf) @ be32 offs"
  let ?h = "hEncode d (headerOf e)"
  from encodeEntry_success [OF ok] dk obtain kv where
    b: "b = ?h @ kv @ be32 (Checksum (?h @ kv) CastagnoliCrcTable)"
    and iv: "generateIV lf offs = Ret ?iv"
    and s: "XORBlockStream d (Key e @ Value e) (dkData dk) ?iv = Inr kv"
    by auto
  have t: "take (length b - crc32Size) b = ?h @ kv"
    unfolding b by (simp add: crc32Size_def length_be32)
  have hd: "hDecode d (?h @ kv) = Ret (headerOf e, length ?h)"
    using c by (simp add: codecInverse_def)
  have a: "XORBlockAllocate d kv (dkData dk) ?iv = Inr (Key e @ Value e)"
    using x s by (simp add: cipherInverse_def)
  have kl: "unat (klen (headerOf e)) = length (Key e)"
    using k by (simp add: headerOf_def unat_len32)
  have g1: "goSlice (?h @ kv) (length ?h) (length (?h @ kv)) = Ret kv"
    by (rule goSlice_all)
  have g2: "goSlice (Key e @ Value e) 0 (length (Key e)) = Ret (Key e)"
    by (rule goSlice_prefix)
  have s: "klen (headerOf e) + vlen (headerOf e) =
             of_nat (length (Key e)) + of_nat (length (Value e))"
    by (simp add: headerOf_def)
  have r: "\<And>val. \<lparr>Key = Key e, Value = val, UserMeta = userMeta (headerOf e),
             ExpiresAt = expiresAt (headerOf e), meta = hmeta (headerOf e), offset = offs,
             hlen = 0\<rparr> = e\<lparr>Value := val, offset := offs, hlen := 0\<rparr>"
    by (cases e) (simp add: headerOf_def)
  have "decodeEntry d lf (?h @ kv) offs =
          (case goSlice (Key e @ Value e) (length (Key e))
                  (unat (of_nat (length (Key e)) + of_nat (length (Value e)) :: uint32)) of
             Panic p \<Rightarrow> Panic p
           | Ret val \<Rightarrow>
               Ret (Inr \<lparr>Key = Key e, Value = val, UserMeta = userMeta (headerOf e),
                  ExpiresAt = expiresAt (headerOf e), meta = hmeta (headerOf e), offset = offs,
                  hlen = 0\<rparr>))"
    unfolding decodeEntry_def
    by (simp only: hd g1 enc decryptKV_def dk iv a g2 s kl exec.case prod.case option.case
        sum.case if_True)
  then show ?thesis
    unfolding t by (simp add: r split: exec.splits)
qed

lemma decode_encoded_small:
  assumes "codecInverse d" and "cipherInverse d" and "encryptionEnabled lf"
    and kv: "length (Key e) + length (Value e) < 2 ^ 32"
    and "encodeEntry d lf [] e offs = Ret (b, n, None)"
  shows "decodeEntry d lf (take (length b - crc32Size) b) offs =
           Ret (Inr (e\<lparr>offset := offs, hlen := 0\<rparr>))"
proof -
  have k: "length (Key e) < 2 ^ 32" and v: "length (Value e) < 2 ^ 32" using kv by simp_all
  have "unat (of_nat (length (Key e)) + of_nat (length (Value e)) :: uint32) =
          unat (of_nat (length (Key e) + length (Value e)) :: uint32)" by simp
  also have "\<dots> = length (Key e) + length (Value e)" using kv by (rule unat_len32)
  finally have u: "unat (of_nat (length (Key e)) + of_nat (length (Value e)) :: uint32) =
          length (Key e) + length (Value e)" .
  show ?thesis
    using decode_encoded [OF assms(1,2,3) k v assms(5)]
    by (simp add: u goSlice_suffix)
qed

lemma decode_encoded_wrapped:
  assumes "codecInverse d" and "cipherInverse d" and "encryptionEnabled lf"
    and k: "length (Key e) < 2 ^ 32" and v: "length (Value e) < 2 ^ 32"
    and kv: "2 ^ 32 \<le> length (Key e) + length (Value e)"
    and "encodeEntry d lf [] e offs = Ret (b, n, None)"
  shows "decodeEntry d lf (take (length b - crc32Size) b) offs = Panic SliceBounds"
proof -
  have "unat (of_nat (length (Key e)) + of_nat (length (Value e)) :: uint32) =
          unat (of_nat (length (Key e) + length (Value e)) :: uint32)" by simp
  also have "\<dots> = (length (Key e) + length (Value e)) mod 2 ^ 32"
    by (subst unat_of_nat) simp
  also have "\<dots> = length (Key e) + length (Value e) - 2 ^ 32"
    using k v kv by (simp add: mod_if)
  finally have u: "unat (of_nat (length (Key e)) + of_nat (length (Value e)) :: uint32) =
          length (Key e) + length (Value e) - 2 ^ 32" .
  have "\<not> length (Key e) \<le> length (Key e) + length (Value e) - 2 ^ 32" using v kv by simp
  then show ?thesis
    using decode_encoded [OF assms(1,2,3) k v assms(7)]
    by (simp add: u goSlice_def)
qed


lemma encodeEntry_encrypted:
  assumes "dataKey lf = Some dk" and "12 \<le> length (baseIV lf)"
    and "XORBlockStream d (Key e @ Value e) (dkData dk) (take 12 (baseIV lf) @ be32 offs) = Inr enc"
  shows "encodeEntry d lf b e offs =
           Ret (b @ hEncode d (headerOf e) @ enc @
                  be32 (Checksum (hEncode d (headerOf e) @ enc) CastagnoliCrcTable),
                length (hEncode d (headerOf e)) + length (Key e) + length (Value e) + crc32Size,
                None)"
  using assms
  by (simp add: encodeEntry_def Let_def headerOf_def generateIV_def mwWrite_two)

lemma encodeEntry_plain:
  assumes "dataKey lf = None"
  shows "encodeEntry d lf b e offs =
           Ret (b @ hEncode d (headerOf e) @ Key e @ Value e @
                  be32 (Checksum (hEncode d (headerOf e) @ Key e @ Value e) CastagnoliCrcTable),
                length (hEncode d (headerOf e)) + length (Key e) + length (Value e) + crc32Size,
                None)"
  using assms
  by (simp add: encodeEntry_def Let_def headerOf_def mwWrite_three)

section \<open>Theorems: the header codec and the cipher of the examples\<close>

lemma byte_small: "n < 128 \<Longrightarrow> (of_nat n :: byte) < 128 \<and> unat (of_nat n :: byte) = n"
proof -
  assume n: "n < 128"
  then have u: "unat (of_nat n :: byte) = n" by (intro of_nat_inverse [OF refl]) simp
  then show ?thesis using n by (simp add: word_less_nat_alt)
qed

lemma byte_cont:
  "k < 128 \<Longrightarrow> \<not> (of_nat (128 + k) :: byte) < 128 \<and> unat (of_nat (128 + k) :: byte) = 128 + k"
proof -
  assume k: "k < 128"
  then have u: "unat (of_nat (128 + k) :: byte) = 128 + k"
    by (intro of_nat_inverse [OF refl]) simp
  then show ?thesis by (simp add: word_less_nat_alt del: of_nat_add)
qed

lemma uvarint_putUvarint:
  "uvarint (putUvarint n @ rest) = Some (n, length (putUvarint n))"
proof (induction n rule: putUvarint.induct)
  case (1 n)
  show ?case
  proof (cases "n < 128")
    case True
    then have p: "putUvarint n = [of_nat n]" by (simp add: putUvarint.simps)
    show ?thesis unfolding p using byte_small [OF True] by simp
  next
    case False
    then have p: "putUvarint n = of_nat (128 + n mod 128) # putUvarint (n div 128)"
      by (subst putUvarint.simps) simp
    have b: "\<not> (of_nat (128 + n mod 128) :: byte) < 128"
      "unat (of_nat (128 + n mod 128) :: byte) = 128 + n mod 128"
      using byte_cont [of "n mod 128"] by simp_all
    show ?thesis
      unfolding p using 1 [OF False] b by (simp del: of_nat_add)
  qed
qed

lemma varintDecode_varintEncode:
  "varintDecode (varintEncode h @ rest) = Ret (h, length (varintEncode h))"
proof -
  let ?a = "putUvarint (unat (klen h))"
  let ?b = "putUvarint (unat (vlen h))"
  let ?c = "putUvarint (unat (expiresAt h))"
  have e: "varintEncode h @ rest = ?a @ (?b @ (?c @ (hmeta h # userMeta h # rest)))"
    by (simp add: varintEncode_def)
  have l: "length (varintEncode h) = length ?a + length ?b + length ?c + 2"
    by (simp add: varintEncode_def)
  have "varintDecode (?a @ (?b @ (?c @ (hmeta h # userMeta h # rest)))) =
          Ret (h, length ?a + length ?b + length ?c + 2)"
    unfolding varintDecode_def by (simp add: uvarint_putUvarint)
  then show ?thesis unfolding l e .
qed

lemma xor_cancel: "(a XOR k) XOR k = (a :: byte)"
  by (metis xor.assoc xor_self_eq xor.right_neutral)

lemma xor_stream_twice:
  "map (\<lambda>i. map (\<lambda>i. src ! i XOR (k i :: byte)) [0..<length src] ! i XOR k i) [0..<length src] = src"
proof (rule nth_equalityI)
  show "length (map (\<lambda>i. map (\<lambda>i. src ! i XOR k i) [0..<length src] ! i XOR k i) [0..<length src]) = length src"
    by simp
next
  fix i
  assume "i < length (map (\<lambda>i. map (\<lambda>i. src ! i XOR k i) [0..<length src] ! i XOR k i) [0..<length src])"
  then have i: "i < length src" by simp
  then show "map (\<lambda>i. map (\<lambda>i. src ! i XOR k i) [0..<length src] ! i XOR k i) [0..<length src] ! i = src ! i"
    by (simp add: xor_cancel)
qed

lemma codecInverse_depsWith: "codecInverse (depsWith rs)"
  by (simp add: codecInverse_def depsWith_def varintDecode_varintEncode)

lemma xorCTR_length: "xorCTR src key iv = Inr enc \<Longrightarrow> length enc = length src"
  by (cases "aesKeySize (length key)") (auto simp: xorCTR_def)

lemma xorCTR_twice: "xorCTR src key iv = Inr enc \<Longrightarrow> xorCTR enc key iv = Inr src"
proof -
  assume a: "xorCTR src key iv = Inr enc"
  then have k: "aesKeySize (length key)"
    by (cases "aesKeySize (length key)") (simp_all add: xorCTR_def)
  then have e: "enc = map (\<lambda>i. src ! i XOR keyStream key iv i) [0..<length src]"
    using a by (simp add: xorCTR_def)
  then have l: "length enc = length src" by simp
  have "xorCTR enc key iv = Inr (map (\<lambda>i. enc ! i XOR keyStream key iv i) [0..<length src])"
    using k by (simp only: xorCTR_def l if_True)
  then show ?thesis unfolding e by (simp only: xor_stream_twice)
qed

lemma cipherInverse_depsWith: "cipherInverse (depsWith rs)"
  unfolding cipherInverse_def
proof (intro allI impI)
  fix src key iv enc
  assume "XORBlockStream (depsWith rs) src key iv = Inr enc"
  then have "xorCTR src key iv = Inr enc" by (simp add: depsWith_def)
  then have "xorCTR enc key iv = Inr src" by (rule xorCTR_twice)
  then show "XORBlockAllocate (depsWith rs) enc key iv = Inr src" by (simp add: depsWith_def)
qed

lemma cipherKeepsLength_depsWith: "cipherKeepsLength (depsWith rs)"
  unfolding cipherKeepsLength_def
proof (intro allI impI)
  fix src key iv enc
  assume "XORBlockStream (depsWith rs) src key iv = Inr enc"
  then have "xorCTR src key iv = Inr enc" by (simp add: depsWith_def)
  then show "length enc = length src" by (rule xorCTR_length)
qed

lemma xorCTR_16: "length key = 16 \<Longrightarrow> \<exists>enc. xorCTR src key iv = Inr enc"
  by (simp add: xorCTR_def aesKeySize_def)

text \<open>
  Claim C3, as stated, for every entry whose key and value lengths fit in 32 bits: it
  fails. A key of \<open>2 ^ 31\<close> bytes and a value of \<open>2 ^ 31\<close> bytes each fit, their sum does
  not: the \<^verbatim>\<open>uint32\<close> sum \<^verbatim>\<open>h.klen+h.vlen\<close> in \<^verbatim>\<open>decodeEntry\<close> wraps to 0 and the slice
  expression for the value panics.
\<close>

theorem C3_length_sum_counterexample:
  "length (Key bigEntry) < 2 ^ 32 \<and> length (Value bigEntry) < 2 ^ 32 \<and>
   encryptionEnabled encLog \<and>
   encodeDecode (depsWith []) encLog bigEntry 20 = Some (Panic SliceBounds)"
proof -
  let ?d = "depsWith []"
  have k: "length (Key bigEntry) < 2 ^ 32" and v: "length (Value bigEntry) < 2 ^ 32"
    and kv: "2 ^ 32 \<le> length (Key bigEntry) + length (Value bigEntry)"
    by (simp_all add: bigEntry_def)
  have en: "encryptionEnabled encLog" by (simp add: encLog_def encryptionEnabled_def)
  have dk: "dataKey encLog = Some \<lparr>KeyId = 1, dkData = replicate 16 0x2a\<rparr>"
    by (simp add: encLog_def)
  have iv: "12 \<le> length (baseIV encLog)" by (simp add: encLog_def emptyLog_def)
  obtain enc where
    "xorCTR (Key bigEntry @ Value bigEntry) (replicate 16 0x2a)
       (take 12 (baseIV encLog) @ be32 20) = Inr enc"
    using xorCTR_16 [of "replicate 16 0x2a"] by auto
  then have x: "XORBlockStream ?d (Key bigEntry @ Value bigEntry)
       (dkData \<lparr>KeyId = 1, dkData = replicate 16 0x2a\<rparr>)
       (take 12 (baseIV encLog) @ be32 20) = Inr enc"
    by (simp add: depsWith_def)
  note ok = encodeEntry_encrypted [OF dk iv x, of "[]"]
  have "decodeEntry ?d encLog
          (take (length ([] @ hEncode ?d (headerOf bigEntry) @ enc @
                  be32 (Checksum (hEncode ?d (headerOf bigEntry) @ enc) CastagnoliCrcTable)) - crc32Size)
             ([] @ hEncode ?d (headerOf bigEntry) @ enc @
                  be32 (Checksum (hEncode ?d (headerOf bigEntry) @ enc) CastagnoliCrcTable)))
          20 = Panic SliceBounds"
    using codecInverse_depsWith cipherInverse_depsWith en k v kv ok
    by (rule decode_encoded_wrapped)
  then have "encodeDecode ?d encLog bigEntry 20 = Some (Panic SliceBounds)"
    unfolding encodeDecode_def ok by simp
  then show ?thesis using k v en by simp
qed

text \<open>
  Claim C3, amended: with encryption enabled, for every entry whose key and value lengths
  together are below \<open>2 ^ 32\<close> and every offset, when the header decoder inverts the
  header encoder and \<^verbatim>\<open>XORBlockAllocate\<close> inverts \<^verbatim>\<open>XORBlockStream\<close> under the same key and
  IV, \<^verbatim>\<open>decodeEntry\<close> applied at that offset to the bytes that \<^verbatim>\<open>encodeEntry\<close> produced
  there, without the CRC trailer, returns the original entry: key, value, meta, user-meta
  and expires-at are those of the original, the offset is the one given and \<^verbatim>\<open>hlen\<close> is 0.
\<close>

theorem C3_encode_decode_round_trip:
  assumes "codecInverse d" and "cipherInverse d" and "encryptionEnabled lf"
    and "length (Key e) + length (Value e) < 2 ^ 32"
    and "encodeEntry d lf [] e offs = Ret (b, n, None)"
  shows "decodeEntry d lf (take (length b - crc32Size) b) offs =
           Ret (Inr (e\<lparr>offset := offs, hlen := 0\<rparr>))"
  using assms by (rule decode_encoded_small)

theorem C3_encode_decode_round_trip_witness:
  "encodeDecode (depsWith []) encLog plainA 20 = Some (Ret (Inr (plainA\<lparr>offset := 20, hlen := 0\<rparr>)))"
proof -
  let ?d = "depsWith []"
  have kv: "length (Key plainA) + length (Value plainA) < 2 ^ 32"
    by (simp add: plainA_def mkEntry_def be64_def)
  have en: "encryptionEnabled encLog" by (simp add: encLog_def encryptionEnabled_def)
  have dk: "dataKey encLog = Some \<lparr>KeyId = 1, dkData = replicate 16 0x2a\<rparr>"
    by (simp add: encLog_def)
  have iv: "12 \<le> length (baseIV encLog)" by (simp add: encLog_def emptyLog_def)
  obtain enc where
    "xorCTR (Key plainA @ Value plainA) (replicate 16 0x2a)
       (take 12 (baseIV encLog) @ be32 20) = Inr enc"
    using xorCTR_16 [of "replicate 16 0x2a"] by auto
  then have x: "XORBlockStream ?d (Key plainA @ Value plainA)
       (dkData \<lparr>KeyId = 1, dkData = replicate 16 0x2a\<rparr>)
       (take 12 (baseIV encLog) @ be32 20) = Inr enc"
    by (simp add: depsWith_def)
  note ok = encodeEntry_encrypted [OF dk iv x, of "[]"]
  note rt = C3_encode_decode_round_trip [OF codecInverse_depsWith cipherInverse_depsWith en kv ok]
  show ?thesis unfolding encodeDecode_def ok using rt by simp
qed

section \<open>Theorems: appending to the log\<close>

lemma encodeEntry_length:
  assumes "cipherKeepsLength d" and "encodeEntry d lf [] e offs = Ret (rec, n, None)"
  shows "n = length rec"
proof -
  from encodeEntry_success [OF assms(2)] obtain kv where
    r: "rec = [] @ hEncode d (headerOf e) @ kv @
          be32 (Checksum (hEncode d (headerOf e) @ kv) CastagnoliCrcTable)"
    and n: "n = length (hEncode d (headerOf e)) + length (Key e) + length (Value e) + crc32Size"
    and k: "case dataKey lf of
              None \<Rightarrow> kv = Key e @ Value e
            | Some dk \<Rightarrow>
                generateIV lf offs = Ret (take 12 (baseIV lf) @ be32 offs) \<and>
                XORBlockStream d (Key e @ Value e) (dkData dk) (take 12 (baseIV lf) @ be32 offs) = Inr kv"
    by blast
  have "length kv = length (Key e) + length (Value e)"
  proof (cases "dataKey lf")
    case None
    then show ?thesis using k by simp
  next
    case (Some dk)
    then have "XORBlockStream d (Key e @ Value e) (dkData dk) (take 12 (baseIV lf) @ be32 offs) = Inr kv"
      using k by simp
    then have "length kv = length (Key e @ Value e)"
      using assms(1) unfolding cipherKeepsLength_def by blast
    then show ?thesis by simp
  qed
  then show ?thesis unfolding r n by (simp add: length_be32 crc32Size_def)
qed

lemma writeEntry_success:
  assumes "writeEntry d lf b e = Ret (lf', b', None)"
  shows "\<exists>rec plen. encodeEntry d lf [] e (writeAt lf) = Ret (rec, plen, None) \<and> b' = Some rec \<and>
           unat (writeAt lf) \<le> length (Data lf) \<and>
           plen = min (length (Data lf) - unat (writeAt lf)) (length rec) \<and>
           lf' = lf\<lparr>Data := take (unat (writeAt lf)) (Data lf) @ take plen rec @
                            drop (unat (writeAt lf) + plen) (Data lf),
                    writeAt := writeAt lf + of_nat plen\<rparr>"
proof -
  from assms obtain old where b: "b = Some old"
    by (cases b) (simp_all add: writeEntry_def)
  from assms b obtain rec plen err where
    en: "encodeEntry d lf [] e (writeAt lf) = Ret (rec, plen, err)"
    by (cases "encodeEntry d lf [] e (writeAt lf)") (auto simp: writeEntry_def)
  have err: "err = None"
    using assms b en by (cases err) (simp_all add: writeEntry_def)
  show ?thesis
    using assms b en err
    by (auto simp: writeEntry_def Let_def split: if_splits)
qed

text \<open>
  Claim C10. A call of \<^verbatim>\<open>writeEntry\<close> that returns nil, with a cipher that keeps the length
  of its input, has encoded the record with the \<^verbatim>\<open>writeAt\<close> it found, which is the offset
  the IV is derived from and the position of the record in the file; the mapping holds the
  whole record from that position on and is unchanged elsewhere; \<^verbatim>\<open>writeAt\<close> has grown by
  the length of the record (as a \<^verbatim>\<open>uint32\<close>, and as a number when the mapping is shorter
  than \<open>2 ^ 32\<close> bytes).
\<close>

theorem C10_writeEntry_contiguous:
  assumes "cipherKeepsLength d" and "writeEntry d lf b e = Ret (lf', b', None)"
  shows "\<exists>rec. encodeEntry d lf [] e (writeAt lf) = Ret (rec, length rec, None) \<and>
           b' = Some rec \<and>
           unat (writeAt lf) + length rec \<le> length (Data lf) \<and>
           lf' = lf\<lparr>Data := take (unat (writeAt lf)) (Data lf) @ rec @
                            drop (unat (writeAt lf) + length rec) (Data lf),
                    writeAt := writeAt lf + of_nat (length rec)\<rparr> \<and>
           (length (Data lf) < 2 ^ 32 \<longrightarrow>
              unat (writeAt lf') = unat (writeAt lf) + length rec) \<and>
           (\<forall>dk. dataKey lf = Some dk \<longrightarrow>
              (\<exists>enc. XORBlockStream d (Key e @ Value e) (dkData dk)
                        (take 12 (baseIV lf) @ be32 (writeAt lf)) = Inr enc \<and>
                     rec = hEncode d (headerOf e) @ enc @
                           be32 (Checksum (hEncode d (headerOf e) @ enc) CastagnoliCrcTable)))"
proof -
  let ?w = "unat (writeAt lf)"
  from writeEntry_success [OF assms(2)] obtain rec plen where
    en: "encodeEntry d lf [] e (writeAt lf) = Ret (rec, plen, None)" and b': "b' = Some rec"
    and w: "?w \<le> length (Data lf)"
    and p: "plen = min (length (Data lf) - ?w) (length rec)"
    and lf': "lf' = lf\<lparr>Data := take ?w (Data lf) @ take plen rec @ drop (?w + plen) (Data lf),
                    writeAt := writeAt lf + of_nat plen\<rparr>"
    by blast
  have pl: "plen = length rec" using assms(1) en by (rule encodeEntry_length)
  have fit: "?w + length rec \<le> length (Data lf)" using p pl w by simp
  have 1: "encodeEntry d lf [] e (writeAt lf) = Ret (rec, length rec, None)"
    using en pl by simp
  have 2: "lf' = lf\<lparr>Data := take ?w (Data lf) @ rec @ drop (?w + length rec) (Data lf),
                    writeAt := writeAt lf + of_nat (length rec)\<rparr>"
    using lf' pl by simp
  have 3: "length (Data lf) < 2 ^ 32 \<longrightarrow> unat (writeAt lf') = ?w + length rec"
  proof
    assume "length (Data lf) < 2 ^ 32"
    then have lt: "?w + length rec < 2 ^ 32" using fit by simp
    then have "length rec < 2 ^ 32" by simp
    then have u: "unat (of_nat (length rec) :: uint32) = length rec" by (rule unat_len32)
    have "unat (writeAt lf + of_nat (length rec)) = ?w + unat (of_nat (length rec) :: uint32)"
      using lt u by (intro unat_add_lem [THEN iffD1]) simp
    then show "unat (writeAt lf') = ?w + length rec" using 2 u by simp
  qed
  have 4: "\<forall>dk. dataKey lf = Some dk \<longrightarrow>
              (\<exists>enc. XORBlockStream d (Key e @ Value e) (dkData dk)
                        (take 12 (baseIV lf) @ be32 (writeAt lf)) = Inr enc \<and>
                     rec = hEncode d (headerOf e) @ enc @
                           be32 (Checksum (hEncode d (headerOf e) @ enc) CastagnoliCrcTable))"
    using encodeEntry_success [OF en] by auto
  show ?thesis using 1 b' fit 2 3 4 by blast
qed

theorem C10_writeEntry_contiguous_witness:
  "\<exists>rec. writeEntry (depsWith []) emptyLog (Some []) plainA =
            Ret (emptyLog\<lparr>Data := replicate 20 0 @ rec @ replicate 25 0, writeAt := 39\<rparr>,
                 Some rec, None) \<and>
          encodeEntry (depsWith []) emptyLog [] plainA 20 = Ret (rec, 19, None)"
proof -
  let ?d = "depsWith []"
  let ?h = "hEncode ?d (headerOf plainA)"
  let ?rec = "?h @ Key plainA @ Value plainA @
                be32 (Checksum (?h @ Key plainA @ Value plainA) CastagnoliCrcTable)"
  have dk: "dataKey emptyLog = None" by (simp add: emptyLog_def)
  have hl: "length ?h = 5"
    by (simp add: depsWith_def varintEncode_def headerOf_def plainA_def mkEntry_def be64_def
        putUvarint.simps)
  have kl: "length (Key plainA) = 9" "length (Value plainA) = 1"
    by (simp_all add: plainA_def mkEntry_def be64_def)
  have rl: "length ?rec = 19" by (simp add: hl kl length_be32)
  have en: "encodeEntry ?d emptyLog [] plainA 20 = Ret (?rec, 19, None)"
    using encodeEntry_plain [OF dk, of ?d "[]" plainA 20] by (simp add: hl kl crc32Size_def)
  have wa: "writeAt emptyLog = 20" "Data emptyLog = replicate 64 0"
    by (simp_all add: emptyLog_def)
  have w: "writeEntry ?d emptyLog (Some []) plainA =
             Ret (emptyLog\<lparr>Data := replicate 20 0 @ ?rec @ replicate 25 0, writeAt := 39\<rparr>,
                  Some ?rec, None)"
    unfolding writeEntry_def by (simp add: wa en hl kl length_be32 Let_def)
  from C10_writeEntry_contiguous [OF cipherKeepsLength_depsWith w]
  obtain rec where "encodeEntry ?d emptyLog [] plainA (writeAt emptyLog) = Ret (rec, length rec, None)"
    and "Some ?rec = Some rec"
    by blast
  then show ?thesis using w en by auto
qed

theorem C4_crc_trailer_witness:
  "\<exists>b kv. encodeEntry (depsWith []) encLog [] plainA 20 = Ret (b, 19, None) \<and>
          xorCTR (Key plainA @ Value plainA) (replicate 16 0x2a) (replicate 12 0 @ be32 20) = Inr kv \<and>
          b = (varintEncode (headerOf plainA) @ kv) @
              be32 (Checksum (varintEncode (headerOf plainA) @ kv) CastagnoliCrcTable)"
proof -
  let ?d = "depsWith []"
  have dk: "dataKey encLog = Some \<lparr>KeyId = 1, dkData = replicate 16 0x2a\<rparr>"
    by (simp add: encLog_def)
  have iv: "12 \<le> length (baseIV encLog)" "take 12 (baseIV encLog) = replicate 12 0"
    by (simp_all add: encLog_def emptyLog_def)
  obtain enc where
    e: "xorCTR (Key plainA @ Value plainA) (replicate 16 0x2a)
       (take 12 (baseIV encLog) @ be32 20) = Inr enc"
    using xorCTR_16 [of "replicate 16 0x2a"] by auto
  then have x: "XORBlockStream ?d (Key plainA @ Value plainA)
       (dkData \<lparr>KeyId = 1, dkData = replicate 16 0x2a\<rparr>)
       (take 12 (baseIV encLog) @ be32 20) = Inr enc"
    by (simp add: depsWith_def)
  have hl: "length (varintEncode (headerOf plainA)) = 5"
    by (simp add: varintEncode_def headerOf_def plainA_def mkEntry_def be64_def
        putUvarint.simps)
  have kl: "length (Key plainA) = 9" "length (Value plainA) = 1"
    by (simp_all add: plainA_def mkEntry_def be64_def)
  have h: "hEncode ?d = varintEncode" by (simp add: depsWith_def)
  note ok = encodeEntry_encrypted [OF dk iv(1) x, of "[]"]
  from C4_crc_trailer [OF ok] dk obtain kv where
    "[] @ hEncode ?d (headerOf plainA) @ enc @
       be32 (Checksum (hEncode ?d (headerOf plainA) @ enc) CastagnoliCrcTable) =
     [] @ (hEncode ?d (headerOf plainA) @ kv) @
       be32 (Checksum (hEncode ?d (headerOf plainA) @ kv) CastagnoliCrcTable)"
    and "XORBlockStream ?d (Key plainA @ Value plainA)
       (dkData \<lparr>KeyId = 1, dkData = replicate 16 0x2a\<rparr>)
       (take 12 (baseIV encLog) @ be32 20) = Inr kv"
    by blast
  then have "kv = enc" using x by simp
  then show ?thesis using ok e by (simp add: hl kl crc32Size_def iv(2) h)
qed

section \<open>Theorems: the memtable\<close>

text \<open>
  Claim C5. When the append to the log returns an error, \<^verbatim>\<open>Put\<close> returns that error,
  wrapped, and the sorted map is as it was; when the append returns nil, \<^verbatim>\<open>Put\<close> has put
  the key and value into the sorted map and returns nil. \<^verbatim>\<open>Put\<close> returns in no other way.
\<close>

theorem C5_put_appends_first:
  assumes "wal mt = Some lf"
  shows "(\<forall>lf' b' err. writeEntry d lf (buf mt) (putEntry key v) = Ret (lf', b', Some err) \<longrightarrow>
            Put d mt key v =
              Ret (mt\<lparr>wal := Some lf', buf := b'\<rparr>, Some (Wrapf err ''cannot write entry to WAL file''))) \<and>
         (\<forall>lf' b' s. writeEntry d lf (buf mt) (putEntry key v) = Ret (lf', b', None) \<and> sl mt = Some s \<longrightarrow>
            Put d mt key v =
              Ret (mt\<lparr>wal := Some lf', buf := b', sl := Some (sklPut s key v)\<rparr>, None)) \<and>
         (\<forall>mt' e. Put d mt key v = Ret (mt', Some e) \<longrightarrow>
            sl mt' = sl mt \<and>
            (\<exists>lf' b' err. writeEntry d lf (buf mt) (putEntry key v) = Ret (lf', b', Some err) \<and>
               e = Wrapf err ''cannot write entry to WAL file'')) \<and>
         (\<forall>mt'. Put d mt key v = Ret (mt', None) \<longrightarrow>
            (\<exists>lf' b' s. writeEntry d lf (buf mt) (putEntry key v) = Ret (lf', b', None) \<and>
               sl mt = Some s \<and> sl mt' = Some (sklPut s key v)))"
proof (cases "writeEntry d lf (buf mt) (putEntry key v)")
  case (Panic p)
  then show ?thesis using assms by (simp add: Put_def Let_def putEntry_def)
next
  case (Ret r)
  obtain lf' b' err where r: "r = (lf', b', err)" by (cases r)
  show ?thesis
  proof (cases err)
    case None
    then show ?thesis
      using assms Ret r by (cases "sl mt") (auto simp: Put_def Let_def putEntry_def)
  next
    case (Some x)
    then show ?thesis
      using assms Ret r by (auto simp: Put_def Let_def putEntry_def)
  qed
qed

theorem C5_put_appends_first_witness:
  "(\<exists>mt'. Put (depsWith []) freshMemTable (Key plainA) valueA = Ret (mt', None) \<and>
          sl mt' = Some \<lparr>items = [(Key plainA, valueA)], reclaimed = 0\<rparr>) \<and>
   (\<exists>mt'. Put (depsWith []) (freshMemTable\<lparr>wal := Some badKeyLog\<rparr>) (Key plainA) valueA =
            Ret (mt', Some (Wrapf (Wrapf (KeySizeError 5) ''Error while encoding entry for vlog.'')
                              ''cannot write entry to WAL file'')) \<and>
          sl mt' = sl freshMemTable)"
proof -
  let ?d = "depsWith []"
  let ?e = "putEntry (Key plainA) valueA"
  let ?h = "hEncode ?d (headerOf ?e)"
  let ?rec = "?h @ Key ?e @ Value ?e @ be32 (Checksum (?h @ Key ?e @ Value ?e) CastagnoliCrcTable)"
  have f: "wal freshMemTable = Some emptyLog" "buf freshMemTable = Some []"
    "sl freshMemTable = Some \<lparr>items = [], reclaimed = 0\<rparr>"
    by (simp_all add: freshMemTable_def)
  have dk: "dataKey emptyLog = None" by (simp add: emptyLog_def)
  have hl: "length ?h = 5"
    by (simp add: depsWith_def varintEncode_def headerOf_def putEntry_def valueA_def plainA_def
        mkEntry_def be64_def putUvarint.simps)
  have kl: "length (Key ?e) = 9" "length (Value ?e) = 1"
    by (simp_all add: putEntry_def valueA_def plainA_def mkEntry_def be64_def)
  have en: "encodeEntry ?d emptyLog [] ?e 20 = Ret (?rec, 19, None)"
    using encodeEntry_plain [OF dk, of ?d "[]" ?e 20] by (simp add: hl kl crc32Size_def)
  have wa: "writeAt emptyLog = 20" "Data emptyLog = replicate 64 0"
    by (simp_all add: emptyLog_def)
  have w: "writeEntry ?d emptyLog (buf freshMemTable) ?e =
             Ret (emptyLog\<lparr>Data := replicate 20 0 @ ?rec @ replicate 25 0, writeAt := 39\<rparr>,
                  Some ?rec, None)"
    unfolding writeEntry_def f by (simp add: wa en hl kl length_be32 Let_def)
  note ok = C5_put_appends_first [OF f(1), of ?d "Key plainA" valueA, THEN conjunct2, THEN conjunct1,
      rule_format, OF conjI, OF w f(3)]
  have 1: "\<exists>mt'. Put ?d freshMemTable (Key plainA) valueA = Ret (mt', None) \<and>
          sl mt' = Some \<lparr>items = [(Key plainA, valueA)], reclaimed = 0\<rparr>"
    unfolding ok by (simp add: sklPut_def)
  let ?mt = "freshMemTable\<lparr>wal := Some badKeyLog\<rparr>"
  have g: "wal ?mt = Some badKeyLog" "buf ?mt = Some []" by (simp_all add: freshMemTable_def)
  have x: "XORBlockStream ?d (Key ?e @ Value ?e) (replicate 5 0) (replicate 12 0 @ be32 20) =
             Inl (KeySizeError 5)"
    by (simp add: depsWith_def xorCTR_def aesKeySize_def)
  have w2: "writeEntry ?d badKeyLog (buf ?mt) ?e =
              Ret (badKeyLog, Some ?h, Some (Wrapf (KeySizeError 5) ''Error while encoding entry for vlog.''))"
    unfolding writeEntry_def g
    by (simp add: encodeEntry_def Let_def badKeyLog_def emptyLog_def generateIV_def x
        headerOf_def mwWrite_def)
  note bad = C5_put_appends_first [OF g(1), of ?d "Key plainA" valueA, THEN conjunct1,
      rule_format, OF w2]
  have 2: "\<exists>mt'. Put ?d ?mt (Key plainA) valueA =
            Ret (mt', Some (Wrapf (Wrapf (KeySizeError 5) ''Error while encoding entry for vlog.'')
                              ''cannot write entry to WAL file'')) \<and>
          sl mt' = sl freshMemTable"
    unfolding bad by simp
  show ?thesis using 1 2 by blast
qed

section \<open>Theorems: the file header\<close>

lemma bootstrap_header:
  assumes "bootstrap y lf = Ret (lf', None)"
  shows "take vlogHeaderSize (Data lf') = be64 (keyID lf') @ map (randByte y) [0..<12] \<and>
         drop vlogHeaderSize (Data lf') = drop vlogHeaderSize (Data lf) \<and>
         baseIV lf' = map (randByte y) [0..<12] \<and> dataKey lf' = fst (latestDataKey y)"
proof -
  obtain dk lerr where l: "latestDataKey y = (dk, lerr)" by (cases "latestDataKey y")
  have le: "lerr = None" using assms l by (cases lerr) (simp_all add: bootstrap_def)
  have re: "randErr y = None"
    using assms l le by (cases "randErr y") (simp_all add: bootstrap_def Let_def)
  have b8: "length (be64 (keyID (lf\<lparr>dataKey := dk\<rparr>))) = 8" by (simp add: be64_def)
  show ?thesis
    using assms l le re b8
    by (auto simp: bootstrap_def Let_def vlogHeaderSize_def keyID_def split: if_splits)
qed

lemma openLog_existing:
  assumes "openLog y lf p = Ret (lf', err)" and "snd (OpenMmapFile y p) \<noteq> Some NewFile"
  shows "Data lf' = fst (OpenMmapFile y p)"
proof -
  obtain mf ferr where o: "OpenMmapFile y p = (mf, ferr)" by (cases "OpenMmapFile y p")
  then have nf: "ferr \<noteq> Some NewFile" using assms(2) by simp
  show ?thesis
  proof (cases ferr)
    case None
    obtain dk derr where dko: "dataKeyOf y (beUint64 (take 8 (take vlogHeaderSize mf))) = (dk, derr)"
      by (cases "dataKeyOf y (beUint64 (take 8 (take vlogHeaderSize mf)))")
    show ?thesis
      using assms(1) o None dko
      by (cases derr) (auto simp: openLog_def Let_def split: if_splits)
  next
    case (Some e)
    then show ?thesis using assms(1) o nf by (auto simp: openLog_def Let_def)
  qed
qed

lemma writeEntry_header:
  assumes "writeEntry d lf b e = Ret (lf', b', err)" and "vlogHeaderSize \<le> unat (writeAt lf)"
  shows "take vlogHeaderSize (Data lf') = take vlogHeaderSize (Data lf)"
proof (cases err)
  case None
  from writeEntry_success [OF assms(1) [unfolded None]] obtain rec plen where
    w: "unat (writeAt lf) \<le> length (Data lf)"
    and lf': "lf' = lf\<lparr>Data := take (unat (writeAt lf)) (Data lf) @ take plen rec @
                            drop (unat (writeAt lf) + plen) (Data lf),
                    writeAt := writeAt lf + of_nat plen\<rparr>"
    by blast
  show ?thesis unfolding lf' using assms(2) w by (simp add: min_absorb2)
next
  case (Some x)
  have "lf' = lf"
    using assms(1) Some
    by (auto simp: writeEntry_def Let_def split: option.splits exec.splits if_splits)
  then show ?thesis by simp
qed

lemma writeEntry_writeAt:
  assumes "writeEntry d lf b e = Ret (lf', b', err)" and "vlogHeaderSize \<le> unat (writeAt lf)"
    and "length (Data lf) < 2 ^ 32"
  shows "vlogHeaderSize \<le> unat (writeAt lf')"
proof (cases err)
  case None
  from writeEntry_success [OF assms(1) [unfolded None]] obtain rec plen where
    w: "unat (writeAt lf) \<le> length (Data lf)"
    and p: "plen = min (length (Data lf) - unat (writeAt lf)) (length rec)"
    and lf': "lf' = lf\<lparr>Data := take (unat (writeAt lf)) (Data lf) @ take plen rec @
                            drop (unat (writeAt lf) + plen) (Data lf),
                    writeAt := writeAt lf + of_nat plen\<rparr>"
    by blast
  have lt: "unat (writeAt lf) + plen < 2 ^ 32" using p w assms(3) by simp
  then have "plen < 2 ^ 32" by simp
  then have u: "unat (of_nat plen :: uint32) = plen" by (rule unat_len32)
  have "unat (writeAt lf + of_nat plen) = unat (writeAt lf) + unat (of_nat plen :: uint32)"
    using lt u by (intro unat_add_lem [THEN iffD1]) simp
  then show ?thesis unfolding lf' using assms(2) u by simp
next
  case (Some x)
  have "lf' = lf"
    using assms(1) Some
    by (auto simp: writeEntry_def Let_def split: option.splits exec.splits if_splits)
  then show ?thesis using assms(2) by simp
qed

lemma reset_frame:
  assumes "reset (Some lf) = Some lf'"
  shows "take vlogHeaderSize (Data lf') = take vlogHeaderSize (Data lf) \<and>
         length (Data lf') = length (Data lf) \<and>
         (\<forall>i<length (Data lf).
            Data lf' ! i = (if vlogHeaderSize \<le> i \<and> i < unat (writeAt lf) then 0 else Data lf ! i)) \<and>
         unat (writeAt lf') = vlogHeaderSize"
proof -
  have lf': "lf' = lf\<lparr>Data := ZeroOut (Data lf) vlogHeaderSize (unat (writeAt lf)),
                    writeAt := of_nat vlogHeaderSize\<rparr>"
    using assms by (simp add: reset_def)
  have l: "length (ZeroOut (Data lf) vlogHeaderSize (unat (writeAt lf))) = length (Data lf)"
    by (simp add: ZeroOut_def)
  have n: "\<forall>i<length (Data lf). ZeroOut (Data lf) vlogHeaderSize (unat (writeAt lf)) ! i =
             (if vlogHeaderSize \<le> i \<and> i < unat (writeAt lf) then 0 else Data lf ! i)"
    by (simp add: ZeroOut_def)
  have t: "take vlogHeaderSize (ZeroOut (Data lf) vlogHeaderSize (unat (writeAt lf))) =
             take vlogHeaderSize (Data lf)"
    by (rule nth_equalityI) (simp_all add: l n)
  have w: "unat (of_nat vlogHeaderSize :: uint32) = vlogHeaderSize"
    by (simp add: vlogHeaderSize_def)
  show ?thesis unfolding lf' using l n t w by simp
qed

text \<open>
  \<^verbatim>\<open>open\<close> returns \<^verbatim>\<open>z.NewFile\<close> only for a new file on which \<^verbatim>\<open>bootstrap\<close> has returned
  nil: every error of \<^verbatim>\<open>bootstrap\<close> and of the registry is wrapped. The mapping then holds
  the header that \<^verbatim>\<open>bootstrap\<close> wrote.
\<close>

lemma openLog_new:
  assumes "openLog y lf p = Ret (lf', Some NewFile)"
  shows "take vlogHeaderSize (Data lf') =
           be64 (keyID (lf\<lparr>dataKey := fst (latestDataKey y)\<rparr>)) @ map (randByte y) [0..<12] \<and>
         drop vlogHeaderSize (Data lf') = drop vlogHeaderSize (fst (OpenMmapFile y p)) \<and>
         snd (OpenMmapFile y p) = Some NewFile"
proof -
  obtain mf ferr where o: "OpenMmapFile y p = (mf, ferr)" by (cases "OpenMmapFile y p")
  let ?lf1 = "lf\<lparr>Data := mf\<rparr>"
  have nf: "ferr = Some NewFile"
  proof (rule ccontr)
    assume n: "ferr \<noteq> Some NewFile"
    show False
    proof (cases ferr)
      case None
      obtain dk derr where dko: "dataKeyOf y (beUint64 (take 8 (take vlogHeaderSize mf))) = (dk, derr)"
        by (cases "dataKeyOf y (beUint64 (take 8 (take vlogHeaderSize mf)))")
      show False
        using assms o None dko
        by (cases derr) (auto simp: openLog_def Let_def split: if_splits)
    next
      case (Some e)
      then show False using assms o n by (auto simp: openLog_def Let_def)
    qed
  qed
  obtain lf2 berr where b: "bootstrap y ?lf1 = Ret (lf2, berr)"
    using assms o nf by (cases "bootstrap y ?lf1") (auto simp: openLog_def Let_def)
  have be: "berr = None"
  proof (cases berr)
    case None
    then show ?thesis .
  next
    case (Some e)
    then have "e = NewFile" using assms o nf b by (simp add: openLog_def Let_def)
    moreover have "e \<noteq> NewFile"
      using b Some
      by (auto simp: bootstrap_def Let_def split: prod.splits option.splits if_splits)
    ultimately show ?thesis by simp
  qed
  have h: "take vlogHeaderSize (Data lf2) = be64 (keyID lf2) @ map (randByte y) [0..<12]"
    "drop vlogHeaderSize (Data lf2) = drop vlogHeaderSize (Data ?lf1)"
    "dataKey lf2 = fst (latestDataKey y)"
    using bootstrap_header [OF b [unfolded be]] by simp_all
  have k: "keyID lf2 = keyID (lf\<lparr>dataKey := fst (latestDataKey y)\<rparr>)"
    using h(3) by (simp add: keyID_def)
  obtain dk derr where dko: "dataKeyOf y (beUint64 (take 8 (take vlogHeaderSize (Data lf2)))) = (dk, derr)"
    by (cases "dataKeyOf y (beUint64 (take 8 (take vlogHeaderSize (Data lf2))))")
  have d: "Data lf' = Data lf2"
    using assms o nf b be dko
    by (cases derr) (auto simp: openLog_def Let_def split: if_splits)
  show ?thesis using h k d o nf by simp
qed

text \<open>
  The callback of \<^verbatim>\<open>UpdateSkipList\<close> captures the memtable, which holds the log file that
  \<^verbatim>\<open>iterate\<close> runs on: it assigns to \<^verbatim>\<open>nextTxnTs\<close> and puts into the skiplist, and leaves
  the log file of the memtable alone, however many entries \<^verbatim>\<open>iterate\<close> delivers.
\<close>

lemma replayFunction_wal:
  "replayFunction d m e vp = Ret (m', r) \<Longrightarrow> wal m' = wal m"
  by (auto simp: replayFunction_def Let_def split: option.splits if_splits)

lemma deliver_wal:
  "deliver (replayFunction d) m es = Ret (m', r) \<Longrightarrow> wal m' = wal m"
proof (induction es arbitrary: m)
  case Nil
  then show ?case by simp
next
  case (Cons a es)
  obtain e vp where a: "a = (e, vp)" by (cases a)
  show ?case
  proof (cases "replayFunction d m e vp")
    case (Panic p)
    then show ?thesis using Cons.prems a by simp
  next
    case (Ret x)
    obtain m1 r1 where x: "x = (m1, r1)" by (cases x)
    have w: "wal m1 = wal m" using Ret x by (simp add: replayFunction_wal)
    show ?thesis
    proof (cases r1)
      case None
      then have "deliver (replayFunction d) m1 es = Ret (m', r)"
        using Cons.prems a Ret x by simp
      then show ?thesis using Cons.IH w by simp
    next
      case (Some err)
      then show ?thesis using Cons.prems a Ret x w by (auto split: if_splits)
    qed
  qed
qed

lemma iterEntry_wal:
  "iterEntry d lf (replayFunction d) e st m = Continue st' m' \<Longrightarrow> wal m' = wal m"
  "iterEntry d lf (replayFunction d) e st m = Finish (Ret (m', off, r)) \<Longrightarrow> wal m' = wal m"
  by (auto simp: iterEntry_def Let_def breakLoop_def
      dest: replayFunction_wal deliver_wal
      split: if_splits sum.splits exec.splits prod.splits option.splits)

lemma iterStep_wal:
  "iterStep d lf (replayFunction d) r st m = Continue st' m' \<Longrightarrow> wal m' = wal m"
  "iterStep d lf (replayFunction d) r st m = Finish (Ret (m', off, e)) \<Longrightarrow> wal m' = wal m"
  by (auto simp: iterStep_def breakLoop_def dest: iterEntry_wal
      split: if_splits exec.splits prod.splits option.splits bool.splits)

lemma iterLoop_wal:
  "iterLoop d lf (replayFunction d) rs st m = Ret (m', off, e) \<Longrightarrow> wal m' = wal m"
proof (induction rs arbitrary: st m)
  case Nil
  then show ?case by simp
next
  case (Cons r rs)
  show ?case
  proof (cases "iterStep d lf (replayFunction d) r st m")
    case (Continue st1 m1)
    then have "iterLoop d lf (replayFunction d) rs st1 m1 = Ret (m', off, e)"
      using Cons.prems by simp
    then have "wal m' = wal m1" by (rule Cons.IH)
    then show ?thesis using iterStep_wal(1) [OF Continue] by simp
  next
    case (Finish res)
    then have "res = Ret (m', off, e)" using Cons.prems by simp
    then show ?thesis using iterStep_wal(2) Finish by blast
  qed
qed

lemma iterate_wal:
  "iterate d lf ro offs (replayFunction d) m = Ret (m', off, e) \<Longrightarrow> wal m' = wal m"
  unfolding iterate_def Let_def by (rule iterLoop_wal)

lemma iterateFile_same:
  "iterateFile d lf ro offs fn s = Ret (lf', r) \<Longrightarrow> lf' = lf"
  by (auto simp: iterateFile_def split: exec.splits)

lemma plainA_record:
  "length (hEncode (depsWith []) (headerOf plainA)) = 5"
  "hEncode (depsWith []) (headerOf plainA) ! 0 = 9"
  by (simp_all add: depsWith_def varintEncode_def headerOf_def plainA_def mkEntry_def be64_def
      putUvarint.simps)

text \<open>
  Claim C9, as stated: it fails for \<^verbatim>\<open>writeEntry\<close>, which does not always start at 20 or
  beyond. \<^verbatim>\<open>writeAt\<close> is a \<^verbatim>\<open>uint32\<close> and \<^verbatim>\<open>lf.writeAt += uint32(plen)\<close> wraps. On a
  mapping of \<open>2 ^ 32\<close> bytes with \<^verbatim>\<open>writeAt\<close> 19 bytes before the end, \<^verbatim>\<open>writeEntry\<close> of a
  record of 19 bytes returns nil and leaves \<^verbatim>\<open>writeAt\<close> at 0; the next \<^verbatim>\<open>writeEntry\<close>
  returns nil too and has written its record over the header.
\<close>

theorem C9_writeAt_wraps_counterexample:
  "\<exists>lf1 b1 lf2 b2.
     vlogHeaderSize \<le> unat (writeAt fullLog) \<and>
     writeEntry (depsWith []) fullLog (Some []) plainA = Ret (lf1, b1, None) \<and>
     writeAt lf1 = 0 \<and>
     writeEntry (depsWith []) lf1 b1 plainA = Ret (lf2, b2, None) \<and>
     Data lf1 ! 0 = 0 \<and> Data lf2 ! 0 = 9 \<and>
     take vlogHeaderSize (Data lf2) \<noteq> take vlogHeaderSize (Data lf1)"
proof -
  let ?d = "depsWith []"
  let ?h = "hEncode ?d (headerOf plainA)"
  let ?rec = "?h @ Key plainA @ Value plainA @
                be32 (Checksum (?h @ Key plainA @ Value plainA) CastagnoliCrcTable)"
  let ?w = "4294967277 :: nat"
  let ?lf1 = "fullLog\<lparr>Data := replicate ?w 0 @ ?rec, writeAt := 0\<rparr>"
  let ?lf2 = "?lf1\<lparr>Data := ?rec @ replicate (?w - 19) 0 @ ?rec, writeAt := 19\<rparr>"
  have kl: "length (Key plainA) = 9" "length (Value plainA) = 1"
    by (simp_all add: plainA_def mkEntry_def be64_def)
  have rl: "length ?rec = 19" by (simp add: plainA_record kl length_be32)
  have dk: "dataKey fullLog = None" "dataKey ?lf1 = None"
    by (simp_all add: fullLog_def emptyLog_def)
  have en: "encodeEntry ?d fullLog [] plainA (writeAt fullLog) = Ret (?rec, 19, None)"
    using encodeEntry_plain [OF dk(1), of ?d "[]" plainA "writeAt fullLog"]
    by (simp add: plainA_record kl crc32Size_def)
  have en1: "encodeEntry ?d ?lf1 [] plainA 0 = Ret (?rec, 19, None)"
    using encodeEntry_plain [OF dk(2), of ?d "[]" plainA 0]
    by (simp add: plainA_record kl crc32Size_def)
  have wa: "unat (writeAt fullLog) = ?w" "writeAt fullLog + 19 = 0"
    "Data fullLog = replicate 4294967296 0"
    by (simp_all add: fullLog_def)
  have g: "vlogHeaderSize \<le> unat (writeAt fullLog)" by (simp add: wa vlogHeaderSize_def)
  have t: "take ?w (replicate 4294967296 (0::byte)) = replicate ?w 0"
    "drop 4294967296 (replicate 4294967296 (0::byte)) = []"
    by (simp_all)
  have w1: "writeEntry ?d fullLog (Some []) plainA = Ret (?lf1, Some ?rec, None)"
    unfolding writeEntry_def
    by (simp add: en wa plainA_record kl length_be32 t Let_def)
  have d1: "drop 19 (replicate ?w (0::byte) @ ?rec) = replicate (?w - 19) 0 @ ?rec"
    by (simp)
  have w2: "writeEntry ?d ?lf1 (Some ?rec) plainA = Ret (?lf2, Some ?rec, None)"
    unfolding writeEntry_def
    by (simp add: en1 plainA_record kl length_be32 d1 Let_def)
  have n1: "Data ?lf1 ! 0 = 0"
    by (simp add: nth_append)
  have n2: "Data ?lf2 ! 0 = 9"
    by (simp add: nth_append plainA_record)
  have p: "0 < vlogHeaderSize" by (simp add: vlogHeaderSize_def)
  have "take vlogHeaderSize (Data ?lf2) ! 0 \<noteq> take vlogHeaderSize (Data ?lf1) ! 0"
    unfolding nth_take [OF p] n1 n2 by simp
  then have ne: "take vlogHeaderSize (Data ?lf2) \<noteq> take vlogHeaderSize (Data ?lf1)"
    by metis
  show ?thesis
    using g w1 w2 n1 n2 ne by (intro exI [of _ ?lf1] exI [of _ "Some ?rec"] exI [of _ ?lf2]) simp
qed

text \<open>
  Claim C9, amended. \<^verbatim>\<open>bootstrap\<close> writes the first 20 bytes of the mapping, the key id in
  8 bytes and the 12 bytes of the base IV, and nothing else. \<^verbatim>\<open>open\<close> that returns
  \<^verbatim>\<open>z.NewFile\<close> has written this header through \<^verbatim>\<open>bootstrap\<close> and left the other bytes of
  the mapping as \<^verbatim>\<open>z.OpenMmapFile\<close> returned them; \<^verbatim>\<open>open\<close> of an existing file leaves the
  whole mapping as \<^verbatim>\<open>z.OpenMmapFile\<close> returned it. \<^verbatim>\<open>writeEntry\<close> with \<^verbatim>\<open>writeAt\<close> at 20
  or more leaves the first 20 bytes as they are, and leaves \<^verbatim>\<open>writeAt\<close> at 20 or more
  when the mapping is shorter than \<open>2 ^ 32\<close> bytes. \<^verbatim>\<open>reset\<close> zeroes the bytes from 20 up
  to \<^verbatim>\<open>writeAt\<close>, leaves every other byte as it is and sets \<^verbatim>\<open>writeAt\<close> to 20.
  \<^verbatim>\<open>iterate\<close> leaves its log file as it is, and with the callback of \<^verbatim>\<open>UpdateSkipList\<close>
  it leaves the log file of the memtable as it is.
\<close>

theorem C9_header_written_once:
  "(bootstrap y lf = Ret (lf1, None) \<longrightarrow>
      take vlogHeaderSize (Data lf1) = be64 (keyID lf1) @ map (randByte y) [0..<12] \<and>
      drop vlogHeaderSize (Data lf1) = drop vlogHeaderSize (Data lf)) \<and>
   (openLog y lf p = Ret (lf0, Some NewFile) \<longrightarrow>
      take vlogHeaderSize (Data lf0) =
        be64 (keyID (lf\<lparr>dataKey := fst (latestDataKey y)\<rparr>)) @ map (randByte y) [0..<12] \<and>
      drop vlogHeaderSize (Data lf0) = drop vlogHeaderSize (fst (OpenMmapFile y p))) \<and>
   (openLog y lf p = Ret (lf2, err2) \<and> snd (OpenMmapFile y p) \<noteq> Some NewFile \<longrightarrow>
      Data lf2 = fst (OpenMmapFile y p)) \<and>
   (writeEntry d lf b e = Ret (lf3, b3, err3) \<and> vlogHeaderSize \<le> unat (writeAt lf) \<longrightarrow>
      take vlogHeaderSize (Data lf3) = take vlogHeaderSize (Data lf) \<and>
      (length (Data lf) < 2 ^ 32 \<longrightarrow> vlogHeaderSize \<le> unat (writeAt lf3))) \<and>
   (reset (Some lf) = Some lf4 \<longrightarrow>
      take vlogHeaderSize (Data lf4) = take vlogHeaderSize (Data lf) \<and>
      length (Data lf4) = length (Data lf) \<and>
      (\<forall>i<length (Data lf).
         Data lf4 ! i = (if vlogHeaderSize \<le> i \<and> i < unat (writeAt lf) then 0 else Data lf ! i)) \<and>
      unat (writeAt lf4) = vlogHeaderSize) \<and>
   (iterateFile d lf ro offs fn s = Ret (lf5, r5) \<longrightarrow> lf5 = lf) \<and>
   (iterate d lf ro offs (replayFunction d) mt = Ret (mt6, off6, err6) \<longrightarrow> wal mt6 = wal mt)"
  using bootstrap_header [of y lf lf1] openLog_new [of y lf p lf0]
    openLog_existing [of y lf p lf2 err2]
    writeEntry_header [of d lf b e lf3 b3 err3] writeEntry_writeAt [of d lf b e lf3 b3 err3]
    reset_frame [of lf lf4] iterateFile_same [of d lf ro offs fn s lf5 r5]
    iterate_wal [of d lf ro offs mt mt6 off6 err6]
  by blast

theorem C9_header_written_once_witness:
  "bootstrap newFileSys emptyLog = Ret (bootedLog, None) \<and>
   take vlogHeaderSize (Data bootedLog) = be64 0 @ map (randByte newFileSys) [0..<12] \<and>
   drop vlogHeaderSize (Data bootedLog) = drop vlogHeaderSize (Data emptyLog) \<and>
   (\<exists>lf0. openLog newFileSys emptyLog ''/data/00001.mem'' = Ret (lf0, Some NewFile) \<and>
          take vlogHeaderSize (Data lf0) = [0, 0, 0, 0, 0, 0, 0, 0, 1, 2, 3, 4, 5, 6, 7, 8, 9, 10, 11, 12] \<and>
          drop vlogHeaderSize (Data lf0) = replicate 44 0) \<and>
   (\<exists>lf2. openLog oldFileSys emptyLog ''/data/00001.mem'' = Ret (lf2, None) \<and>
          Data lf2 = replicate 64 0) \<and>
   (\<exists>lf3 b3. writeEntry (depsWith []) bootedLog (Some []) plainA = Ret (lf3, b3, None) \<and>
          Data lf3 \<noteq> Data bootedLog \<and>
          take vlogHeaderSize (Data lf3) = take vlogHeaderSize (Data bootedLog) \<and>
          vlogHeaderSize \<le> unat (writeAt lf3)) \<and>
   (\<exists>lf4. reset (Some (bootedLog\<lparr>writeAt := 39\<rparr>)) = Some lf4 \<and>
          take vlogHeaderSize (Data lf4) = take vlogHeaderSize (Data bootedLog) \<and>
          unat (writeAt lf4) = vlogHeaderSize) \<and>
   iterateFile (depsWith (map okRead [plainA])) bootedLog True 0 recordCalls [] =
     Ret (bootedLog, [plainA], 39, None) \<and>
   (\<exists>mt6. iterate (depsWith (map okRead [plainA])) bootedLog True 0
            (replayFunction (depsWith (map okRead [plainA]))) (freshMemTable\<lparr>wal := Some bootedLog\<rparr>) =
            Ret (mt6, 39, None) \<and>
          sl mt6 \<noteq> sl freshMemTable \<and> wal mt6 = Some bootedLog)"
proof -
  let ?d = "depsWith []"
  have b8: "length (be64 0) = 8" by (simp add: be64_def)
  have boot: "bootstrap newFileSys emptyLog = Ret (bootedLog, None)"
    by (simp add: bootstrap_def newFileSys_def sysWith_def bootedLog_def emptyLog_def Let_def
        keyID_def b8 vlogHeaderSize_def)
  note c1 = C9_header_written_once [where y = newFileSys and lf = emptyLog and ?lf1.0 = bootedLog,
      THEN conjunct1, rule_format, OF boot]
  have kid: "keyID bootedLog = 0" by (simp add: keyID_def bootedLog_def emptyLog_def)
  have n: "openLog newFileSys emptyLog ''/data/00001.mem'' =
             Ret (bootedLog\<lparr>dataKey := None,
                    baseIV := drop 8 (take vlogHeaderSize (Data bootedLog))\<rparr>, Some NewFile)"
    using boot
    by (simp add: openLog_def newFileSys_def sysWith_def Let_def emptyLog_def bootedLog_def b8
        vlogHeaderSize_def)
  note c0 = C9_header_written_once [where y = newFileSys and lf = emptyLog
      and p = "''/data/00001.mem''", THEN conjunct2, THEN conjunct1, rule_format, OF n]
  have iv: "map (randByte newFileSys) [0..<12] = [1, 2, 3, 4, 5, 6, 7, 8, 9, 10, 11, 12]"
    by (simp add: newFileSys_def sysWith_def upt_rec)
  have z8: "be64 0 = [0, 0, 0, 0, 0, 0, 0, 0]" by (simp add: be64_def)
  have c0': "\<exists>lf0. openLog newFileSys emptyLog ''/data/00001.mem'' = Ret (lf0, Some NewFile) \<and>
          take vlogHeaderSize (Data lf0) = [0, 0, 0, 0, 0, 0, 0, 0, 1, 2, 3, 4, 5, 6, 7, 8, 9, 10, 11, 12] \<and>
          drop vlogHeaderSize (Data lf0) = replicate 44 0"
    using n c0 iv z8
    by (simp add: keyID_def emptyLog_def newFileSys_def sysWith_def vlogHeaderSize_def)
  have o: "openLog oldFileSys emptyLog ''/data/00001.mem'' =
             Ret (emptyLog\<lparr>Data := replicate 64 0, dataKey := None,
                    baseIV := drop 8 (take vlogHeaderSize (replicate 64 0))\<rparr>, None)"
    by (simp add: openLog_def oldFileSys_def sysWith_def Let_def vlogHeaderSize_def)
  have nf: "snd (OpenMmapFile oldFileSys ''/data/00001.mem'') \<noteq> Some NewFile"
    by (simp add: oldFileSys_def sysWith_def)
  note c2 = C9_header_written_once [where y = oldFileSys and lf = emptyLog
      and p = "''/data/00001.mem''", THEN conjunct2, THEN conjunct2, THEN conjunct1, rule_format,
      OF conjI, OF o nf]
  have c2': "\<exists>lf2. openLog oldFileSys emptyLog ''/data/00001.mem'' = Ret (lf2, None) \<and>
          Data lf2 = replicate 64 0"
    using o c2 by (simp add: oldFileSys_def sysWith_def)
  let ?h = "hEncode ?d (headerOf plainA)"
  let ?rec = "?h @ Key plainA @ Value plainA @
                be32 (Checksum (?h @ Key plainA @ Value plainA) CastagnoliCrcTable)"
  have dk: "dataKey bootedLog = None" by (simp add: bootedLog_def emptyLog_def)
  have hl: "length ?h = 5"
    by (simp add: depsWith_def varintEncode_def headerOf_def plainA_def mkEntry_def be64_def
        putUvarint.simps)
  have kl: "length (Key plainA) = 9" "length (Value plainA) = 1"
    by (simp_all add: plainA_def mkEntry_def be64_def)
  have en: "encodeEntry ?d bootedLog [] plainA 20 = Ret (?rec, 19, None)"
    using encodeEntry_plain [OF dk, of ?d "[]" plainA 20] by (simp add: hl kl crc32Size_def)
  have wa: "writeAt bootedLog = 20" "length (Data bootedLog) = 64"
    by (simp_all add: bootedLog_def emptyLog_def b8)
  have "\<exists>lf3. writeEntry ?d bootedLog (Some []) plainA = Ret (lf3, Some ?rec, None) \<and>
          writeAt lf3 = 39 \<and>
          Data lf3 = take 20 (Data bootedLog) @ ?rec @ drop 39 (Data bootedLog)"
    unfolding writeEntry_def by (simp add: wa en hl kl length_be32 Let_def)
  then obtain lf3 where w: "writeEntry ?d bootedLog (Some []) plainA = Ret (lf3, Some ?rec, None)"
    and w39: "writeAt lf3 = 39"
    and d3: "Data lf3 = take 20 (Data bootedLog) @ ?rec @ drop 39 (Data bootedLog)"
    by blast
  have ge: "vlogHeaderSize \<le> unat (writeAt bootedLog)" by (simp add: wa vlogHeaderSize_def)
  note c3 = C9_header_written_once [where lf = bootedLog and d = ?d and b = "Some []"
      and e = plainA, THEN conjunct2, THEN conjunct2, THEN conjunct2, THEN conjunct1,
      rule_format, OF conjI, OF w ge, THEN conjunct1]
  have "Data lf3 ! 20 = 9"
    unfolding d3
    by (simp add: nth_append wa depsWith_def varintEncode_def headerOf_def plainA_def mkEntry_def
        be64_def putUvarint.simps)
  moreover have "Data bootedLog ! 20 = 0"
    by (simp add: bootedLog_def nth_append b8)
  ultimately have ne: "Data lf3 \<noteq> Data bootedLog" by auto
  have c3': "\<exists>lf3 b3. writeEntry ?d bootedLog (Some []) plainA = Ret (lf3, b3, None) \<and>
          Data lf3 \<noteq> Data bootedLog \<and>
          take vlogHeaderSize (Data lf3) = take vlogHeaderSize (Data bootedLog) \<and>
          vlogHeaderSize \<le> unat (writeAt lf3)"
    using w c3 w39 ne by (auto simp: vlogHeaderSize_def)
  have r: "reset (Some (bootedLog\<lparr>writeAt := 39\<rparr>)) =
             Some (bootedLog\<lparr>Data := ZeroOut (Data bootedLog) vlogHeaderSize 39,
                     writeAt := of_nat vlogHeaderSize\<rparr>)"
    by (simp add: reset_def)
  note c4 = C9_header_written_once [where lf = "bootedLog\<lparr>writeAt := 39\<rparr>",
      THEN conjunct2, THEN conjunct2, THEN conjunct2, THEN conjunct2, THEN conjunct1,
      rule_format, OF r]
  have c4': "\<exists>lf4. reset (Some (bootedLog\<lparr>writeAt := 39\<rparr>)) = Some lf4 \<and>
          take vlogHeaderSize (Data lf4) = take vlogHeaderSize (Data bootedLog) \<and>
          unat (writeAt lf4) = vlogHeaderSize"
    using r c4 by simp
  let ?e = "depsWith (map okRead [plainA])"
  have it: "iterate ?e bootedLog True 0 recordCalls [] = Ret ([plainA], 39, None)"
    by (simp add: iterate_def depsWith_def okRead_def iterStep_def iterEntry_def zeroHeader_def
        recordCalls_def Let_def vlogHeaderSize_def example_fields crc32Size_def)
  obtain lf5 r5 where f: "iterateFile ?e bootedLog True 0 recordCalls [] = Ret (lf5, r5)"
    and r5: "r5 = ([plainA], 39, None)"
    using it by (simp add: iterateFile_def)
  note c5 = C9_header_written_once [where lf = bootedLog and d = ?e and ro = True and offs = 0
      and fn = recordCalls and s = "[]", THEN conjunct2, THEN conjunct2, THEN conjunct2,
      THEN conjunct2, THEN conjunct2, THEN conjunct1, rule_format, OF f]
  have c5': "iterateFile ?e bootedLog True 0 recordCalls [] = Ret (bootedLog, [plainA], 39, None)"
    using f r5 c5 by simp
  let ?mt = "freshMemTable\<lparr>wal := Some bootedLog\<rparr>"
  have "\<exists>mt6. iterate ?e bootedLog True 0 (replayFunction ?e) ?mt = Ret (mt6, 39, None) \<and>
          sl mt6 = Some \<lparr>items = [(Key plainA, valueOf plainA)], reclaimed = 0\<rparr>"
    by (simp add: iterate_def depsWith_def okRead_def iterStep_def iterEntry_def zeroHeader_def
        replayFunction_def Let_def vlogHeaderSize_def example_fields crc32Size_def
        freshMemTable_def sklPut_def valueOf_def)
  then obtain mt6 where i6: "iterate ?e bootedLog True 0 (replayFunction ?e) ?mt = Ret (mt6, 39, None)"
    and s6: "sl mt6 = Some \<lparr>items = [(Key plainA, valueOf plainA)], reclaimed = 0\<rparr>"
    by blast
  note c6 = C9_header_written_once [where lf = bootedLog and d = ?e and ro = True and offs = 0
      and mt = ?mt, THEN conjunct2, THEN conjunct2, THEN conjunct2,
      THEN conjunct2, THEN conjunct2, THEN conjunct2, rule_format, OF i6]
  have c6': "\<exists>mt6. iterate ?e bootedLog True 0 (replayFunction ?e) ?mt = Ret (mt6, 39, None) \<and>
          sl mt6 \<noteq> sl freshMemTable \<and> wal mt6 = Some bootedLog"
    using i6 s6 c6 by (auto simp: freshMemTable_def)
  show ?thesis using boot c1 kid c0' c2' c3' c4' c5' c6' by simp
qed

section \<open>Theorems: replay into the memtable\<close>

lemma replayFunction_effect:
  assumes "sl m = Some s"
  shows "replayFunction d m e vp =
           Ret (m\<lparr>nextTxnTs := max (nextTxnTs m) (ParseTs d (Key e)),
                  sl := Some (sklPut s (Key e) (valueOf e))\<rparr>, None)"
  using assms
  by (simp add: replayFunction_def Let_def valueOf_def max_def not_less)

lemma Truncate_effect:
  "ops (fst (Truncate y lf n)) = ops lf @ [OpTruncate n] \<and>
   snd (Truncate y lf n) = truncateErr y n \<and>
   (truncateErr y n = None \<longrightarrow>
      Data (fst (Truncate y lf n)) = take (nat n) (Data lf) @ replicate (nat n - length (Data lf)) 0 \<and>
      length (Data (fst (Truncate y lf n))) = nat n)"
  by (cases "truncateErr y n") (simp_all add: Truncate_def Let_def)

lemma example_keys:
  "Key plainA \<noteq> Key txnX" "Key plainA \<noteq> Key txnY" "Key txnX \<noteq> Key txnY"
  "Key txnX \<noteq> Key plainA" "Key txnY \<noteq> Key plainA" "Key txnY \<noteq> Key txnX"
  by (simp_all add: plainA_def txnX_def txnY_def mkEntry_def)

lemma replayTable_parts:
  "wal replayTable = Some replayLog" "sl replayTable = Some \<lparr>items = [], reclaimed = 0\<rparr>"
  "nextTxnTs replayTable = 0"
  by (simp_all add: replayTable_def)

lemma replay_example:
  "iterate (depsWith tornLog) replayLog True 0 (replayFunction (depsWith tornLog)) replayTable =
     Ret (replayTable\<lparr>nextTxnTs := 9,
            sl := Some \<lparr>items = [(Key plainA, valueOf plainA), (Key txnX, valueOf txnX),
                                 (Key txnY, valueOf txnY)], reclaimed = 0\<rparr>\<rparr>, 96, None)"
  by (simp add: iterate_def depsWith_def tornLog_def okRead_def iterStep_def iterEntry_def
      zeroHeader_def replayFunction_def Let_def vlogHeaderSize_def example_fields
      tsOfKey_examples ParseUint_9 crc32Size_def breakLoop_def replayTable_def sklPut_def
      valueOf_def example_keys)

text \<open>
  Claim C8, as stated: it fails in its last part. \<^verbatim>\<open>UpdateSkipList\<close> truncates the log
  with one call of \<^verbatim>\<open>Truncate\<close> on the mapped file; \<^verbatim>\<open>doneWriting\<close> would sync, unmap,
  truncate the file descriptor and initialise the log file again.
\<close>

theorem C8_via_doneWriting_counterexample:
  "walOps (UpdateSkipList (depsWith tornLog) oldFileSys replayTable) = Some [OpTruncate 96] \<and>
   walOps (UpdateSkipList_doneWriting (depsWith tornLog) oldFileSys replayTable) =
     Some [OpMsync, OpMunmap, OpFdTruncate 96, OpInit]"
proof -
  let ?d = "depsWith tornLog"
  let ?mt1 = "replayTable\<lparr>nextTxnTs := 9,
            sl := Some \<lparr>items = [(Key plainA, valueOf plainA), (Key txnX, valueOf txnX),
                                 (Key txnY, valueOf txnY)], reclaimed = 0\<rparr>\<rparr>"
  have tr: "Truncate oldFileSys replayLog (uint (96 :: uint32)) =
              (replayLog\<lparr>ops := [OpTruncate 96], Data := replicate 96 0\<rparr>, None)"
    by (simp add: Truncate_def Let_def oldFileSys_def sysWith_def replayLog_def emptyLog_def)
  have u: "UpdateSkipList ?d oldFileSys replayTable =
             Ret (?mt1\<lparr>wal := Some (replayLog\<lparr>ops := [OpTruncate 96], Data := replicate 96 0\<rparr>)\<rparr>, None)"
    unfolding UpdateSkipList_def
    by (simp only: replayTable_parts replay_example tr option.case exec.case prod.case
        option.distinct if_False)
  have dw: "doneWriting ?d oldFileSys replayLog 96 =
             (replayLog\<lparr>ops := [OpMsync, OpMunmap, OpFdTruncate 96, OpInit], Data := []\<rparr>, None)"
    by (simp add: doneWriting_def munmap_def Let_def oldFileSys_def sysWith_def replayLog_def
        emptyLog_def depsWith_def)
  have v: "UpdateSkipList_doneWriting ?d oldFileSys replayTable =
             Ret (?mt1\<lparr>wal := Some (replayLog\<lparr>ops := [OpMsync, OpMunmap, OpFdTruncate 96, OpInit],
                                      Data := []\<rparr>)\<rparr>, None)"
    unfolding UpdateSkipList_doneWriting_def
    by (simp only: replayTable_parts replay_example dw option.case exec.case prod.case
        option.distinct if_False)
  show ?thesis unfolding u v by (simp add: walOps_def)
qed

text \<open>
  Claim C8, amended: when the memtable has a log file and a skiplist, \<^verbatim>\<open>UpdateSkipList\<close>
  runs \<^verbatim>\<open>iterate\<close> from offset 0 with the replay callback, which for every entry it is
  given sets \<^verbatim>\<open>nextTxnTs\<close> to the maximum of its value and the timestamp of the key and
  puts the entry into the sorted map as it is; when \<^verbatim>\<open>iterate\<close> returns nil,
  \<^verbatim>\<open>UpdateSkipList\<close> truncates the log file to the offset \<^verbatim>\<open>iterate\<close> returned with one
  call of \<^verbatim>\<open>Truncate\<close> on the mapped file, not through \<^verbatim>\<open>doneWriting\<close>, and returns the
  error of that call; when \<^verbatim>\<open>iterate\<close> returns an error, \<^verbatim>\<open>UpdateSkipList\<close> returns it
  wrapped and truncates nothing.
\<close>

theorem C8_update_skiplist:
  assumes "wal mt = Some lf" and "sl mt = Some s"
  shows "(\<forall>m s' e vp. sl m = Some s' \<longrightarrow>
            replayFunction d m e vp =
              Ret (m\<lparr>nextTxnTs := max (nextTxnTs m) (ParseTs d (Key e)),
                     sl := Some (sklPut s' (Key e) (valueOf e))\<rparr>, None)) \<and>
         (\<forall>mt1 endOff. iterate d lf True 0 (replayFunction d) mt = Ret (mt1, endOff, None) \<longrightarrow>
            (\<exists>lf'. UpdateSkipList d y mt = Ret (mt1\<lparr>wal := Some lf'\<rparr>, truncateErr y (uint endOff)) \<and>
               lf' = fst (Truncate y lf (uint endOff)) \<and>
               ops lf' = ops lf @ [OpTruncate (uint endOff)] \<and>
               (truncateErr y (uint endOff) = None \<longrightarrow>
                  Data lf' = take (unat endOff) (Data lf) @ replicate (unat endOff - length (Data lf)) 0))) \<and>
         (\<forall>mt1 endOff err. iterate d lf True 0 (replayFunction d) mt = Ret (mt1, endOff, Some err) \<longrightarrow>
            UpdateSkipList d y mt = Ret (mt1, Some (Wrapf err ''while iterating wal: %s'')))"
proof -
  have 1: "\<forall>m s' e vp. sl m = Some s' \<longrightarrow>
            replayFunction d m e vp =
              Ret (m\<lparr>nextTxnTs := max (nextTxnTs m) (ParseTs d (Key e)),
                     sl := Some (sklPut s' (Key e) (valueOf e))\<rparr>, None)"
    by (simp add: replayFunction_effect)
  have 2: "\<forall>mt1 endOff. iterate d lf True 0 (replayFunction d) mt = Ret (mt1, endOff, None) \<longrightarrow>
            (\<exists>lf'. UpdateSkipList d y mt = Ret (mt1\<lparr>wal := Some lf'\<rparr>, truncateErr y (uint endOff)) \<and>
               lf' = fst (Truncate y lf (uint endOff)) \<and>
               ops lf' = ops lf @ [OpTruncate (uint endOff)] \<and>
               (truncateErr y (uint endOff) = None \<longrightarrow>
                  Data lf' = take (unat endOff) (Data lf) @ replicate (unat endOff - length (Data lf)) 0))"
  proof (intro allI impI)
    fix mt1 endOff
    assume i: "iterate d lf True 0 (replayFunction d) mt = Ret (mt1, endOff, None)"
    have u: "UpdateSkipList d y mt =
               Ret (mt1\<lparr>wal := Some (fst (Truncate y lf (uint endOff)))\<rparr>,
                    snd (Truncate y lf (uint endOff)))"
      using assms i by (simp add: UpdateSkipList_def split: prod.splits)
    show "\<exists>lf'. UpdateSkipList d y mt = Ret (mt1\<lparr>wal := Some lf'\<rparr>, truncateErr y (uint endOff)) \<and>
               lf' = fst (Truncate y lf (uint endOff)) \<and>
               ops lf' = ops lf @ [OpTruncate (uint endOff)] \<and>
               (truncateErr y (uint endOff) = None \<longrightarrow>
                  Data lf' = take (unat endOff) (Data lf) @ replicate (unat endOff - length (Data lf)) 0)"
      using u Truncate_effect [of y lf "uint endOff"] by simp
  qed
  have 3: "\<forall>mt1 endOff err. iterate d lf True 0 (replayFunction d) mt = Ret (mt1, endOff, Some err) \<longrightarrow>
            UpdateSkipList d y mt = Ret (mt1, Some (Wrapf err ''while iterating wal: %s''))"
    using assms by (simp add: UpdateSkipList_def)
  show ?thesis using 1 2 3 by blast
qed

theorem C8_update_skiplist_witness:
  "\<exists>lf'. UpdateSkipList (depsWith tornLog) oldFileSys replayTable =
            Ret (replayTable\<lparr>nextTxnTs := 9,
                   sl := Some \<lparr>items = [(Key plainA, valueOf plainA), (Key txnX, valueOf txnX),
                                        (Key txnY, valueOf txnY)], reclaimed = 0\<rparr>,
                   wal := Some lf'\<rparr>, None) \<and>
          ops lf' = [OpTruncate 96] \<and> Data lf' = replicate 96 0"
proof -
  let ?d = "depsWith tornLog"
  note c = C8_update_skiplist [where d = ?d and y = oldFileSys, OF replayTable_parts(1,2),
      THEN conjunct2, THEN conjunct1, rule_format, OF replay_example]
  have e: "truncateErr oldFileSys (uint (96 :: uint32)) = None"
    by (simp add: oldFileSys_def sysWith_def)
  have o: "ops replayLog = []" "Data replayLog = replicate 128 0"
    by (simp_all add: replayLog_def emptyLog_def)
  show ?thesis using c unfolding e o by simp blast
qed

section \<open>Theorems: directory recovery\<close>

lemma openAll_nextMemFid:
  "openAll d y db fids = Ret (db', err) \<Longrightarrow> nextMemFid db' = nextMemFid db"
proof (induction fids arbitrary: db)
  case Nil
  then show ?case by simp
next
  case (Cons fd fids)
  show ?case
  proof (cases "openMemTable d y db fd")
    case (Panic p)
    then show ?thesis using Cons.prems by simp
  next
    case (Ret r)
    obtain mt e where r: "r = (mt, e)" by (cases r)
    show ?thesis
    proof (cases e)
      case None
      then have "openAll d y (db\<lparr>imm := imm db @ (case mt of None \<Rightarrow> [] | Some m \<Rightarrow> [m])\<rparr>) fids =
                   Ret (db', err)"
        using Cons.prems Ret r by simp
      from Cons.IH [OF this] show ?thesis by simp
    next
      case (Some x)
      then show ?thesis using Cons.prems Ret r by simp
    qed
  qed
qed

lemma openMemTables_nextMemFid:
  assumes "openMemTables d y db = Ret (db', None)"
  shows "nextMemFid db' =
           (if dirFids y db = [] then nextMemFid db else last (sort_key sint (dirFids y db))) + 1"
proof -
  obtain files rerr where rd: "ReadDir y (dir db) = (files, rerr)" by (cases "ReadDir y (dir db)")
  have re: "rerr = None" using assms rd by (cases rerr) (simp_all add: openMemTables_def)
  obtain fids where pf: "parseFids files = Inr fids"
    using assms rd re by (cases "parseFids files") (auto simp: openMemTables_def)
  have df: "dirFids y db = fids" by (simp add: dirFids_def rd pf)
  obtain db1 where oa: "openAll d y db (sort_key sint fids) = Ret (db1, None)"
    using assms rd re pf
    by (cases "openAll d y db (sort_key sint fids)")
       (auto simp: openMemTables_def Let_def split: option.splits)
  have n: "nextMemFid db1 = nextMemFid db" using oa by (rule openAll_nextMemFid)
  have l: "(length (sort_key sint fids) \<noteq> 0) = (fids \<noteq> [])" by simp
  show ?thesis
    using assms rd re pf oa n unfolding df
    by (auto simp: openMemTables_def Let_def)
qed

lemma sorted_le_last: "sorted (ys :: int list) \<Longrightarrow> y \<in> set ys \<Longrightarrow> y \<le> last ys"
proof (induction ys)
  case Nil
  then show ?case by simp
next
  case (Cons x xs)
  show ?case
  proof (cases "xs = []")
    case True
    then show ?thesis using Cons.prems by simp
  next
    case False
    then have l: "last xs \<in> set xs" by (rule last_in_set)
    have s: "sorted xs" "\<forall>z\<in>set xs. x \<le> z" using Cons.prems(1) by simp_all
    show ?thesis
    proof (cases "y = x")
      case True
      then show ?thesis using False s(2) l by simp
    next
      case False
      then have "y \<in> set xs" using Cons.prems(2) by simp
      then show ?thesis using Cons.IH s(1) \<open>xs \<noteq> []\<close> by simp
    qed
  qed
qed

lemma last_sort_key_Max:
  assumes "fids \<noteq> []"
  shows "sint (last (sort_key sint fids)) = Max (sint ` set (fids :: 64 word list))"
proof -
  let ?ys = "map sint (sort_key sint fids)"
  have s: "sorted ?ys" by (rule sorted_sort_key)
  have "length (sort_key sint fids) = length fids" by simp
  then have ne0: "sort_key sint fids \<noteq> []" using assms by (metis length_0_conv)
  then have ne: "?ys \<noteq> []" by simp
  have st: "set ?ys = sint ` set fids" by simp
  have "last ?ys = Max (set ?ys)"
  proof (rule Max_eqI [symmetric])
    show "finite (set ?ys)" by simp
    show "\<And>y. y \<in> set ?ys \<Longrightarrow> y \<le> last ?ys" using s by (rule sorted_le_last)
    show "last ?ys \<in> set ?ys" using ne by (rule last_in_set)
  qed
  moreover have "last ?ys = sint (last (sort_key sint fids))"
    using ne0 by (simp add: last_map)
  ultimately show ?thesis using st by simp
qed

lemma sint_add_nat:
  assumes "- (2 ^ 63) \<le> sint (w :: 64 word) + int i" and "sint w + int i < 2 ^ 63"
  shows "sint (w + of_nat i) = sint w + int i"
proof -
  have "w + of_nat i = word_of_int (sint w + int i)" by simp
  then have "sint (w + of_nat i) = signed_take_bit 63 (sint w + int i)"
    by (simp only: signed_of_int) simp
  also have "\<dots> = sint w + int i"
    using assms by (intro signed_take_bit_int_eq_self) simp_all
  finally show ?thesis .
qed

lemma newMemTable_next:
  assumes "newMemTable d y db = Ret (db', mt, err)"
  shows "nextMemFid db' = nextMemFid db + 1 \<and> openMemTable d y db (nextMemFid db) = Ret (mt, err)"
  using assms
  by (cases "openMemTable d y db (nextMemFid db)") (auto simp: newMemTable_def)

lemma newMemTables_ids:
  "newMemTables d y k db = Ret (db', ids) \<Longrightarrow>
   ids = map (\<lambda>i. nextMemFid db + of_nat i) [0..<k] \<and> nextMemFid db' = nextMemFid db + of_nat k"
proof (induction k arbitrary: db ids)
  case 0
  then show ?case by simp
next
  case (Suc k)
  from Suc.prems obtain db1 mt err where
    n: "newMemTable d y db = Ret (db1, mt, err)"
    by (cases "newMemTable d y db") auto
  from Suc.prems n obtain rest where
    r: "newMemTables d y k db1 = Ret (db', rest)" and i: "ids = nextMemFid db # rest"
    by (cases "newMemTables d y k db1") auto
  have n1: "nextMemFid db1 = nextMemFid db + 1" using newMemTable_next [OF n] by simp
  from Suc.IH [OF r] have
    rest: "rest = map (\<lambda>i. nextMemFid db1 + of_nat i) [0..<k]"
    and last: "nextMemFid db' = nextMemFid db1 + of_nat k"
    by simp_all
  have "map (\<lambda>i. nextMemFid db + of_nat i) [0..<Suc k] =
          nextMemFid db # map (\<lambda>i. nextMemFid db + of_nat (Suc i)) [0..<k]"
    by (simp add: upt_rec [of 0 "Suc k"] map_Suc_upt [symmetric] del: upt_Suc of_nat_Suc)
  then show ?case using rest last n1 i by (simp add: add.assoc)
qed


lemma sint_ids:
  assumes "sint (n :: 64 word) + int k < 2 ^ 63"
  shows "map sint (map (\<lambda>i. n + of_nat i) [0..<k]) = map (\<lambda>i. sint n + int i) [0..<k]"
proof -
  have lo: "- (2 ^ 63) \<le> sint n" using sint_ge [of n] by simp
  have "\<forall>i\<in>set [0..<k]. sint (n + of_nat i) = sint n + int i"
  proof
    fix i assume "i \<in> set [0..<k]"
    then have "int i < int k" by simp
    then show "sint (n + of_nat i) = sint n + int i"
      using assms lo by (intro sint_add_nat) simp_all
  qed
  then show ?thesis by simp
qed

lemma increasing_ids: "sorted_wrt (<) (map (\<lambda>i. (c :: int) + int i) [0..<k])"
  by (simp add: sorted_wrt_map)

text \<open>
  Claim C6. \<^verbatim>\<open>nextMemFid\<close> is an \<^verbatim>\<open>int\<close> of 64 bits; the ids of the directory and the
  \<open>k\<close> ids handed out next are taken to leave it room, so that no addition overflows, and
  \<^verbatim>\<open>openMemTables\<close> to run on a database whose \<^verbatim>\<open>nextMemFid\<close> is still 0. After a
  successful \<^verbatim>\<open>openMemTables\<close>, \<^verbatim>\<open>nextMemFid\<close> is the largest id of the log files of the
  directory plus one, and 1 when there is none. Every \<^verbatim>\<open>newMemTable\<close> opens the memtable of
  the current \<^verbatim>\<open>nextMemFid\<close> and adds one to it, so that \<open>k\<close> calls in a row use the ids
  from \<^verbatim>\<open>nextMemFid\<close> upwards, each larger than the one before.
\<close>

theorem C6_file_ids:
  assumes "openMemTables d y db = Ret (db1, None)" and "nextMemFid db = 0"
    and "newMemTables d y k db1 = Ret (db2, ids)"
    and "\<forall>f\<in>set (dirFids y db). sint f + 1 + int k < 2 ^ 63" and "1 + int k < 2 ^ 63"
  shows "sint (nextMemFid db1) =
           (if dirFids y db = [] then 1 else Max (sint ` set (dirFids y db)) + 1) \<and>
         map sint ids = map (\<lambda>i. sint (nextMemFid db1) + int i) [0..<k] \<and>
         sorted_wrt (<) (map sint ids) \<and>
         sint (nextMemFid db2) = sint (nextMemFid db1) + int k \<and>
         (\<forall>db' db'' mt err. newMemTable d y db' = Ret (db'', mt, err) \<longrightarrow>
            nextMemFid db'' = nextMemFid db' + 1 \<and>
            openMemTable d y db' (nextMemFid db') = Ret (mt, err))"
proof -
  let ?S = "dirFids y db"
  let ?n = "nextMemFid db1"
  have n: "?n = (if ?S = [] then nextMemFid db else last (sort_key sint ?S)) + 1"
    using assms(1) by (rule openMemTables_nextMemFid)
  have a: "sint ?n = (if ?S = [] then 1 else Max (sint ` set ?S) + 1)"
    and room: "sint ?n + int k < 2 ^ 63"
  proof -
    show "sint ?n = (if ?S = [] then 1 else Max (sint ` set ?S) + 1)"
    proof (cases "?S = []")
      case True
      then show ?thesis using n assms(2) by simp
    next
      case False
      let ?m = "last (sort_key sint ?S)"
      have m: "sint ?m = Max (sint ` set ?S)" using False by (rule last_sort_key_Max)
      have "Max (sint ` set ?S) \<in> sint ` set ?S" using False by (intro Max_in) simp_all
      then obtain f where f: "f \<in> set ?S" "sint f = Max (sint ` set ?S)" by auto
      have "sint f + 1 + int k < 2 ^ 63" using assms(4) f(1) by blast
      then have "sint ?m + 1 + int k < 2 ^ 63" using f(2) m by simp
      then have hi: "sint ?m + int 1 < 2 ^ 63" by simp
      have lo: "- (2 ^ 63) \<le> sint ?m + int 1" using sint_ge [of ?m] by simp
      have "sint (?m + of_nat 1) = sint ?m + int 1" using lo hi by (rule sint_add_nat)
      then show ?thesis using n False m by simp
    qed
    then show "sint ?n + int k < 2 ^ 63"
    proof (cases "?S = []")
      case True
      then show ?thesis using \<open>sint ?n = (if ?S = [] then 1 else Max (sint ` set ?S) + 1)\<close> assms(5)
        by simp
    next
      case False
      have "Max (sint ` set ?S) \<in> sint ` set ?S" using False by (intro Max_in) simp_all
      then obtain f where f: "f \<in> set ?S" "sint f = Max (sint ` set ?S)" by auto
      have "sint f + 1 + int k < 2 ^ 63" using assms(4) f(1) by blast
      then have "Max (sint ` set ?S) + 1 + int k < 2 ^ 63" using f(2) by simp
      then show ?thesis
        using \<open>sint ?n = (if ?S = [] then 1 else Max (sint ` set ?S) + 1)\<close> False by simp
    qed
  qed
  from newMemTables_ids [OF assms(3)] have
    ids: "ids = map (\<lambda>i. ?n + of_nat i) [0..<k]" and l: "nextMemFid db2 = ?n + of_nat k"
    by simp_all
  have b: "map sint ids = map (\<lambda>i. sint ?n + int i) [0..<k]"
    unfolding ids using room by (rule sint_ids)
  have c: "sorted_wrt (<) (map sint ids)" unfolding b by (rule increasing_ids)
  have lo: "- (2 ^ 63) \<le> sint ?n + int k" using sint_ge [of ?n] by simp
  have e: "sint (nextMemFid db2) = sint ?n + int k"
    unfolding l using lo room by (rule sint_add_nat)
  have f: "\<forall>db' db'' mt err. newMemTable d y db' = Ret (db'', mt, err) \<longrightarrow>
            nextMemFid db'' = nextMemFid db' + 1 \<and>
            openMemTable d y db' (nextMemFid db') = Ret (mt, err)"
    using newMemTable_next by blast
  show ?thesis using a b c e f by blast
qed

lemma dirFids_example: "dirFids oldFileSys freshDB = [1, 3]"
  by (simp add: dirFids_def oldFileSys_def sysWith_def someFiles_def HasSuffix_def memFileExt_def
      ParseInt_def Let_def)

lemma dirFids_empty: "dirFids newFileSys freshDB = []"
  by (simp add: dirFids_def newFileSys_def sysWith_def)

lemma openMemTable_old:
  "\<exists>mt. openMemTable (depsWith []) oldFileSys db fd = Ret (Some mt, None)"
  by (simp add: openMemTable_def openLog_def oldFileSys_def sysWith_def Let_def
      vlogHeaderSize_def UpdateSkipList_def iterate_def depsWith_def Truncate_def)

lemma openMemTable_new:
  "\<exists>mt. openMemTable (depsWith []) newFileSys db fd = Ret (Some mt, None)"
  by (simp add: openMemTable_def openLog_def bootstrap_def newFileSys_def sysWith_def Let_def
      vlogHeaderSize_def keyID_def be64_def)

lemma openAll_old: "\<exists>db'. openAll (depsWith []) oldFileSys db fids = Ret (db', None)"
proof (induction fids arbitrary: db)
  case Nil
  show ?case by simp
next
  case (Cons fd fids)
  obtain mt where "openMemTable (depsWith []) oldFileSys db fd = Ret (Some mt, None)"
    using openMemTable_old by blast
  then show ?case using Cons.IH [of "db\<lparr>imm := imm db @ [mt]\<rparr>"] by simp
qed

lemma openMemTables_old: "\<exists>db1. openMemTables (depsWith []) oldFileSys freshDB = Ret (db1, None)"
proof -
  have r: "ReadDir oldFileSys (dir freshDB) = (someFiles, None)"
    by (simp add: oldFileSys_def sysWith_def)
  have p: "parseFids someFiles = Inr [1, 3]"
    using dirFids_example by (simp add: dirFids_def r split: sum.splits)
  obtain db' where "openAll (depsWith []) oldFileSys freshDB (sort_key sint [1, 3]) = Ret (db', None)"
    using openAll_old by blast
  then show ?thesis by (simp add: openMemTables_def r p Let_def)
qed

lemma openMemTables_new: "\<exists>db1. openMemTables (depsWith []) newFileSys freshDB = Ret (db1, None)"
  by (simp add: openMemTables_def newFileSys_def sysWith_def Let_def)

lemma newMemTables_old: "\<exists>db2 ids. newMemTables (depsWith []) oldFileSys k db = Ret (db2, ids)"
proof (induction k arbitrary: db)
  case 0
  show ?case by simp
next
  case (Suc k)
  obtain mt where m: "openMemTable (depsWith []) oldFileSys db (nextMemFid db) = Ret (Some mt, None)"
    using openMemTable_old by blast
  obtain db2 ids where
    "newMemTables (depsWith []) oldFileSys k (db\<lparr>nextMemFid := nextMemFid db + 1\<rparr>) = Ret (db2, ids)"
    using Suc.IH by blast
  then show ?case using m by (simp add: newMemTable_def)
qed

lemma newMemTables_new: "\<exists>db2 ids. newMemTables (depsWith []) newFileSys k db = Ret (db2, ids)"
proof (induction k arbitrary: db)
  case 0
  show ?case by simp
next
  case (Suc k)
  obtain mt where m: "openMemTable (depsWith []) newFileSys db (nextMemFid db) = Ret (Some mt, None)"
    using openMemTable_new by blast
  obtain db2 ids where
    "newMemTables (depsWith []) newFileSys k (db\<lparr>nextMemFid := nextMemFid db + 1\<rparr>) = Ret (db2, ids)"
    using Suc.IH by blast
  then show ?case using m by (simp add: newMemTable_def)
qed

theorem C6_file_ids_witness:
  "(\<exists>db1 db2 ids. openMemTables (depsWith []) oldFileSys freshDB = Ret (db1, None) \<and>
      dirFids oldFileSys freshDB = [1, 3] \<and> sint (nextMemFid db1) = 4 \<and>
      newMemTables (depsWith []) oldFileSys 2 db1 = Ret (db2, ids) \<and> map sint ids = [4, 5] \<and>
      sint (nextMemFid db2) = 6) \<and>
   (\<exists>db1 db2 ids. openMemTables (depsWith []) newFileSys freshDB = Ret (db1, None) \<and>
      dirFids newFileSys freshDB = [] \<and> sint (nextMemFid db1) = 1 \<and>
      newMemTables (depsWith []) newFileSys 1 db1 = Ret (db2, ids) \<and> map sint ids = [1])"
proof -
  let ?d = "depsWith []"
  have fresh: "nextMemFid freshDB = 0" by (simp add: freshDB_def)
  obtain db1 where o: "openMemTables ?d oldFileSys freshDB = Ret (db1, None)"
    using openMemTables_old by blast
  obtain db2 ids where n: "newMemTables ?d oldFileSys 2 db1 = Ret (db2, ids)"
    using newMemTables_old by blast
  have b1: "\<forall>f\<in>set (dirFids oldFileSys freshDB). sint f + 1 + int 2 < 2 ^ 63"
    by (simp add: dirFids_example)
  have b2: "1 + int 2 < 2 ^ 63" by simp
  note c = C6_file_ids [OF o fresh n b1 b2]
  have u: "[0..<2] = [0, Suc 0]" by (simp add: upt_rec)
  have 1: "\<exists>db1 db2 ids. openMemTables ?d oldFileSys freshDB = Ret (db1, None) \<and>
      dirFids oldFileSys freshDB = [1, 3] \<and> sint (nextMemFid db1) = 4 \<and>
      newMemTables ?d oldFileSys 2 db1 = Ret (db2, ids) \<and> map sint ids = [4, 5] \<and>
      sint (nextMemFid db2) = 6"
    using o n c by (simp add: dirFids_example u)
  obtain db1' where o': "openMemTables ?d newFileSys freshDB = Ret (db1', None)"
    using openMemTables_new by blast
  obtain db2' ids' where n': "newMemTables ?d newFileSys 1 db1' = Ret (db2', ids')"
    using newMemTables_new by blast
  have b1': "\<forall>f\<in>set (dirFids newFileSys freshDB). sint f + 1 + int 1 < 2 ^ 63"
    by (simp add: dirFids_empty)
  have b2': "1 + int 1 < 2 ^ 63" by simp
  note c' = C6_file_ids [OF o' fresh n' b1' b2']
  have 2: "\<exists>db1 db2 ids. openMemTables ?d newFileSys freshDB = Ret (db1, None) \<and>
      dirFids newFileSys freshDB = [] \<and> sint (nextMemFid db1) = 1 \<and>
      newMemTables ?d newFileSys 1 db1 = Ret (db2, ids) \<and> map sint ids = [1]"
    using o' n' c' by (simp add: dirFids_empty)
  show ?thesis using 1 2 by blast
qed

end
